theory Spec2Isabelle
  imports Main "HOL-Library.Word"
begin

section \<open>Machine arithmetic of the Go sources\<close>

text \<open>
  Timestamps, steps and step counters are Go \<open>int64\<close> values. They are modelled as
  mathematical integers, and every arithmetic operation of the source is followed by
  \<open>wrap64\<close>, the two's complement wrap-around of a 64-bit signed integer.
  Go's integer division truncates towards zero (\<open>quot\<close>).
\<close>

definition wrap64 :: "int \<Rightarrow> int" where
  "wrap64 x = (x + 2 ^ 63) mod 2 ^ 64 - 2 ^ 63"

definition quot :: "int \<Rightarrow> int \<Rightarrow> int" where
  "quot a b = sgn a * sgn b * (\<bar>a\<bar> div \<bar>b\<bar>)"

text \<open>
  \<open>float64(x)\<close> for an integer \<open>x\<close>: the nearest double, ties to even. A double has a
  53-bit significand, so integers up to \<open>2 ^ 53\<close> in magnitude convert exactly; a larger
  one is rounded to a multiple of \<open>2 ^ e\<close>, where \<open>e\<close> is the number of bits it has
  beyond 53. The result is again an integer, so the double is represented by its value.
\<close>

fun bit_length :: "nat \<Rightarrow> nat" where
  "bit_length n = (if n = 0 then 0 else Suc (bit_length (n div 2)))"

declare bit_length.simps [simp del]

definition float64 :: "int \<Rightarrow> int" where
  "float64 x =
     (if \<bar>x\<bar> \<le> 2 ^ 53 then x
      else let e = bit_length (nat \<bar>x\<bar>) - 53;
               q = \<bar>x\<bar> div 2 ^ e;
               r = \<bar>x\<bar> mod 2 ^ e;
               h = 2 ^ (e - 1);
               q' = (if r > h \<or> (r = h \<and> odd q) then q + 1 else q)
           in sgn x * (q' * 2 ^ e))"

text \<open>
  \<open>int(f)\<close> for a double \<open>f\<close> with an integer value: the value itself when it fits in 64
  bits. The only double met here that does not fit is \<open>2 ^ 63\<close>; the conversion
  instruction of a 64-bit x86 yields the smallest \<open>int64\<close> for it, which is what
  \<open>wrap64\<close> gives.
\<close>

definition int_of_float64 :: "int \<Rightarrow> int" where
  "int_of_float64 f = wrap64 f"

section \<open>Data model\<close>

type_synonym Label = "string \<times> string"
type_synonym Labels = "Label list"

definition MetricName :: string where
  "MetricName = ''__name__''"

text \<open>\<open>model.StepVector\<close>: the samples of one instant. Sample values are \<open>float64\<close> in the
  source; no property below computes with them, so their type is a parameter.\<close>

record 'v StepVector =
  T :: int
  SampleIDs :: "nat list"
  Samples :: "'v list"

text \<open>\<open>promql.Point\<close>, the payload of a \<open>promql.Sample\<close>.\<close>

record 'v Point =
  PointT :: int
  PointV :: 'v

text \<open>What a Go function can do besides returning values: return an error value (of the
  caller's error type \<open>'e\<close>) or panic, on an index out of range or a nil pointer.\<close>

datatype 'e failure = Error 'e | PanicIndexOutOfRange | PanicNilDereference

text \<open>
  Modelled from the spec: the vector pool (\<open>model.VectorPool\<close>, not among the sources).
  \<open>GetVectorBatch()\<close> gives an empty batch and \<open>GetStepVector(t)\<close> a step vector with \<open>t\<close>
  set and its sample ids and samples cleared (section 4.A).
\<close>

definition GetVectorBatch :: "'v StepVector list" where
  "GetVectorBatch = []"

definition GetStepVector :: "int \<Rightarrow> 'v StepVector" where
  "GetStepVector ts = \<lparr>T = ts, SampleIDs = [], Samples = []\<rparr>"

section \<open>Label sets and their library operations\<close>

text \<open>
  Modelled from the spec: the label operations of section 6 (the external \<open>labels\<close>
  package): a deterministic hash, the hash without a set of names, the hash restricted to
  a set of names, and a builder that deletes or keeps names. The hash of a label list is
  a parameter \<open>h\<close>, applied to the labels that the library writes into its buffer, in
  the order it writes them. A builder is its base label set with the list of deleted
  names.

  The two restricted hashes do not look names up in a set. Each walks the label set once,
  front to back, along the list of names, comparing names as Go compares strings (byte by
  byte, \<open>string_less\<close>), and the library documents that the names have to be sorted in
  ascending order:

  \<^item> \<open>HashForLabels\<close> keeps two cursors: a name smaller than the current label's name
    is passed over, a label whose name is smaller than the current name is passed over,
    and on equal names the label is written and both cursors advance (\<open>for_labels\<close>);
  \<^item> \<open>HashWithoutLabels\<close>, for every label, first passes over the names smaller than
    the label's name, then skips the label if it is the metric name or the current name,
    and writes it otherwise (\<open>without_labels\<close>).
\<close>

fun string_less :: "string \<Rightarrow> string \<Rightarrow> bool" where
  "string_less [] [] = False"
| "string_less [] (y # ys) = True"
| "string_less (x # xs) [] = False"
| "string_less (x # xs) (y # ys) =
     ((of_char x :: nat) < of_char y \<or> (x = y \<and> string_less xs ys))"

fun for_labels :: "Labels \<Rightarrow> string list \<Rightarrow> Labels" where
  "for_labels [] names = []"
| "for_labels (l # ls) [] = []"
| "for_labels (l # ls) (n # names) =
     (if string_less n (fst l) then for_labels (l # ls) names
      else if string_less (fst l) n then for_labels ls (n # names)
      else l # for_labels ls names)"

fun without_labels :: "Labels \<Rightarrow> string list \<Rightarrow> Labels" where
  "without_labels [] names = []"
| "without_labels (l # ls) names =
     (let names' = dropWhile (\<lambda>n. string_less n (fst l)) names in
      if fst l = MetricName \<or> (names' \<noteq> [] \<and> fst l = hd names')
      then without_labels ls names'
      else l # without_labels ls names')"

definition HashWithoutLabels :: "(Labels \<Rightarrow> 64 word) \<Rightarrow> Labels \<Rightarrow> string list \<Rightarrow> 64 word" where
  "HashWithoutLabels h ls names = h (without_labels ls names)"

definition HashForLabels :: "(Labels \<Rightarrow> 64 word) \<Rightarrow> Labels \<Rightarrow> string list \<Rightarrow> 64 word" where
  "HashForLabels h ls names = h (for_labels ls names)"

record Builder =
  base :: Labels
  dels :: "string list"

definition NewBuilder :: "Labels \<Rightarrow> Builder" where
  "NewBuilder ls = \<lparr>base = ls, dels = []\<rparr>"

definition Del :: "string list \<Rightarrow> Builder \<Rightarrow> Builder" where
  "Del ns b = b\<lparr>dels := dels b @ ns\<rparr>"

definition Keep :: "string list \<Rightarrow> Builder \<Rightarrow> Builder" where
  "Keep ns b = b\<lparr>dels := dels b @ filter (\<lambda>n. n \<notin> set ns) (map fst (base b))\<rparr>"

definition BuilderLabels :: "Builder \<Rightarrow> Labels" where
  "BuilderLabels b = filter (\<lambda>l. fst l \<notin> set (dels b)) (base b)"

section \<open>The binary operator: join signatures and the join index\<close>

datatype VectorMatchCardinality = CardOneToOne | CardManyToOne | CardOneToMany | CardManyToMany

text \<open>\<open>parser.VectorMatching\<close>: \<open>On\<close> distinguishes \<open>on(...)\<close> from \<open>ignoring(...)\<close>,
  \<open>Include\<close> holds the labels listed by \<open>group_left\<close> or \<open>group_right\<close>.\<close>

record VectorMatching =
  Card :: VectorMatchCardinality
  MatchingLabels :: "string list"
  On :: bool
  Include :: "string list"

text \<open>\<open>model.Series\<close>. Series ids are \<open>uint64\<close> values obtained from slice lengths and
  slice indices, hence natural numbers.\<close>

record Series =
  ID :: nat
  Metric :: Labels

text \<open>A Go \<open>map[uint64]T\<close> is a partial function on 64-bit words. Reading a missing key of a
  map of slices gives the nil slice (\<open>bucket\<close>).\<close>

type_synonym 'a gomap = "64 word \<Rightarrow> 'a option"

definition bucket :: "'a list gomap \<Rightarrow> 64 word \<Rightarrow> 'a list" where
  "bucket m k = (case m k of None \<Rightarrow> [] | Some xs \<Rightarrow> xs)"

definition signature ::
  "(Labels \<Rightarrow> 64 word) \<Rightarrow> Labels \<Rightarrow> bool \<Rightarrow> string list \<Rightarrow> bool \<Rightarrow> 64 word \<times> Labels" where
  "signature h metric without grouping keepLabels =
     (let lb = Del [MetricName] (NewBuilder metric) in
      if without then
        let dropLabels = grouping @ [MetricName];
            key = HashWithoutLabels h metric dropLabels;
            lb' = (if \<not> keepLabels then Del dropLabels lb else lb)
        in (key, BuilderLabels lb')
      else
        let lb' = (if keepLabels then Keep grouping lb else lb) in
        if length grouping = 0 then (0, BuilderLabels lb')
        else (HashForLabels h metric grouping, BuilderLabels lb'))"

definition hashSeries_step ::
  "(Labels \<Rightarrow> 64 word) \<Rightarrow> VectorMatching \<Rightarrow> bool \<Rightarrow> nat \<times> Labels
     \<Rightarrow> Series list gomap \<times> nat list gomap \<Rightarrow> Series list gomap \<times> nat list gomap" where
  "hashSeries_step h m keepLabels is hi =
     (let (i, s) = is;
          (hashes, inputIndex) = hi;
          (sig, lbls) = signature h s (\<not> On m) (MatchingLabels m) keepLabels;
          (hashes1, inputIndex1) =
             (if hashes sig = None then (hashes(sig \<mapsto> []), inputIndex(sig \<mapsto> []))
              else (hashes, inputIndex))
      in (hashes1(sig \<mapsto> bucket hashes1 sig @ [\<lparr>ID = i, Metric = lbls\<rparr>]),
          inputIndex1(sig \<mapsto> bucket inputIndex1 sig @ [i])))"

definition hashSeries ::
  "(Labels \<Rightarrow> 64 word) \<Rightarrow> VectorMatching \<Rightarrow> Labels list \<Rightarrow> bool
     \<Rightarrow> Series list gomap \<times> nat list gomap" where
  "hashSeries h m series' keepLabels =
     fold (hashSeries_step h m keepLabels) (enumerate 0 series') (Map.empty, Map.empty)"

text \<open>
  The first loop of \<open>join\<close> ranges over \<open>highCardHashes\<close>, adds the bucket sizes up and
  deletes the buckets without a low-cardinality partner. Go leaves the order of a
  \<open>range\<close> over a map open; the order taken is the list \<open>ks\<close>, and \<open>range_order ks m\<close>
  says that it enumerates the keys of \<open>m\<close>, each once.
\<close>

definition range_order :: "64 word list \<Rightarrow> 'a gomap \<Rightarrow> bool" where
  "range_order ks m = (distinct ks \<and> set ks = dom m)"

definition prune_step ::
  "Series list gomap \<Rightarrow> 64 word \<Rightarrow> nat \<times> Series list gomap \<Rightarrow> nat \<times> Series list gomap" where
  "prune_step lowCardHashes hash' acc =
     (let (outputSize, highCardHashes) = acc;
          outputSize' = outputSize + length (bucket highCardHashes hash')
      in if lowCardHashes hash' = None then (outputSize', highCardHashes(hash' := None))
         else (outputSize', highCardHashes))"

type_synonym join_state = "Series list \<times> nat option list \<times> nat list list"

text \<open>The inner loop of \<open>join\<close> over the series of one bucket: \<open>hin\<close> is
  \<open>highCardInputIndex[hash]\<close> and \<open>lid\<close> is \<open>lowCardSeriesID\<close>. A pointer to the fresh
  output id is \<open>Some\<close> of the id, the nil pointer is \<open>None\<close>.\<close>

fun join_inner ::
  "nat list \<Rightarrow> nat \<Rightarrow> Series list \<Rightarrow> nat \<Rightarrow> join_state \<Rightarrow> 'e failure + join_state" where
  "join_inner hin lid [] i st = Inr st"
| "join_inner hin lid (output # rest) i (outputIndex, highCardOutputIndex, lowCardOutputIndex) =
     (let outputSeries = \<lparr>ID = length outputIndex, Metric = Metric output\<rparr>;
          outputIndex' = outputIndex @ [outputSeries]
      in if length hin \<le> i then Inl PanicIndexOutOfRange
         else let highCardSeriesID = hin ! i
              in if length highCardOutputIndex \<le> highCardSeriesID then Inl PanicIndexOutOfRange
                 else if length lowCardOutputIndex \<le> lid then Inl PanicIndexOutOfRange
                 else join_inner hin lid rest (i + 1)
                        (outputIndex',
                         highCardOutputIndex[highCardSeriesID := Some (ID outputSeries)],
                         lowCardOutputIndex[lid := lowCardOutputIndex ! lid @ [ID outputSeries]]))"

text \<open>The second loop of \<open>join\<close>, over the buckets that are left, in the order \<open>ks\<close>.\<close>

fun join_outer ::
  "Series list gomap \<Rightarrow> nat list gomap \<Rightarrow> nat list gomap \<Rightarrow> 64 word list \<Rightarrow> join_state
     \<Rightarrow> 'e failure + join_state" where
  "join_outer highCardHashes highCardInputIndex lowCardInputIndex [] st = Inr st"
| "join_outer highCardHashes highCardInputIndex lowCardInputIndex (hash' # ks)
       (outputIndex, highCardOutputIndex, lowCardOutputIndex) =
     (case bucket lowCardInputIndex hash' of
        [] \<Rightarrow> Inl PanicIndexOutOfRange
      | lowCardSeriesID # _ \<Rightarrow>
          if length lowCardOutputIndex \<le> lowCardSeriesID then Inl PanicIndexOutOfRange
          else (case join_inner (bucket highCardInputIndex hash') lowCardSeriesID
                       (bucket highCardHashes hash') 0
                       (outputIndex, highCardOutputIndex,
                        lowCardOutputIndex[lowCardSeriesID := []]) of
                  Inl e \<Rightarrow> Inl e
                | Inr st' \<Rightarrow>
                    join_outer highCardHashes highCardInputIndex lowCardInputIndex ks st'))"

definition join ::
  "64 word list \<Rightarrow> 64 word list \<Rightarrow> Series list gomap \<Rightarrow> nat list gomap
     \<Rightarrow> Series list gomap \<Rightarrow> nat list gomap \<Rightarrow> 'e failure + join_state" where
  "join ks1 ks2 highCardHashes highCardInputIndex lowCardHashes lowCardInputIndex =
     (let (outputSize, highCardHashes') = fold (prune_step lowCardHashes) ks1 (0, highCardHashes);
          highCardOutputIndex = replicate outputSize None;
          lowCardOutputIndex = replicate outputSize []
      in join_outer highCardHashes' highCardInputIndex lowCardInputIndex ks2
           ([], highCardOutputIndex, lowCardOutputIndex))"

section \<open>The binary operator: initialisation and Next\<close>

text \<open>
  \<open>model.VectorOperator\<close>, the interface of a child operator, over the child's state
  \<open>'c\<close>: \<open>Series\<close> and \<open>Next\<close> return a result or an error and may change the child; the
  last two fields are \<open>GetPool().PutStepVector\<close> and \<open>GetPool().PutVectors\<close>, which hand
  buffers back to the child's pool.
\<close>

record ('c, 'e, 'v) VectorOperator =
  opSeries :: "'c \<Rightarrow> ('e failure + Labels list) \<times> 'c"
  opNext :: "'c \<Rightarrow> ('e failure + 'v StepVector list) \<times> 'c"
  opPutStepVector :: "'v StepVector \<Rightarrow> 'c \<Rightarrow> 'c"
  opPutVectors :: "'v StepVector list \<Rightarrow> 'c \<Rightarrow> 'c"

text \<open>
  What the operator is built from and depends on: the two children's method tables, the
  hash of the labels library, and the two functions of \<open>table.go\<close>, which is not among
  the sources. \<open>newTable\<close> receives the cardinality, the operation, the length of the
  output cache and the two indices and returns a table or an error;
  \<open>execBinaryOperation\<close> returns one step vector for a pair of step vectors (the call in
  \<open>Next\<close> takes a single result). \<open>order1\<close> and \<open>order2\<close> are the orders in which the two
  loops of \<open>join\<close> range over their map.
\<close>

record ('l, 'r, 'e, 'v, 'op, 'tbl) env =
  lhsOp :: "('l, 'e, 'v) VectorOperator"
  rhsOp :: "('r, 'e, 'v) VectorOperator"
  hashLabels :: "Labels \<Rightarrow> 64 word"
  newTable :: "VectorMatchCardinality \<Rightarrow> 'op \<Rightarrow> nat \<Rightarrow> nat option list \<Rightarrow> nat list list \<Rightarrow> 'e + 'tbl"
  execBinaryOperation :: "'tbl \<Rightarrow> 'v StepVector \<Rightarrow> 'v StepVector \<Rightarrow> 'v StepVector"
  order1 :: "64 word list"
  order2 :: "64 word list"

text \<open>\<open>vectorOperator\<close>. \<open>lhs\<close> and \<open>rhs\<close> hold the states of the children, \<open>once\<close> says
  whether the \<open>sync.Once\<close> has fired, \<open>outputCache\<close> is the length of the cache (its cells are written by
  \<open>table.go\<close> only), \<open>stepSize\<close> is what \<open>pool.SetStepSize\<close> stored, and \<open>table\<close> is
  \<open>None\<close> while the pointer is nil.\<close>

record ('l, 'r, 'op, 'tbl) vectorOperator =
  lhs :: 'l
  rhs :: 'r
  matching :: VectorMatching
  operation :: 'op
  once :: bool
  series :: "Labels list"
  outputCache :: nat
  highCardOutputIndex :: "nat option list"
  lowCardOutputIndex :: "nat list list"
  stepSize :: nat
  table :: "'tbl option"

definition NewVectorOperator :: "'l \<Rightarrow> 'r \<Rightarrow> VectorMatching \<Rightarrow> 'op \<Rightarrow> ('l, 'r, 'op, 'tbl) vectorOperator" where
  "NewVectorOperator l r m operation' =
     \<lparr>lhs = l, rhs = r, matching = m, operation = operation', once = False, series = [],
      outputCache = 0, highCardOutputIndex = [], lowCardOutputIndex = [], stepSize = 0,
      table = None\<rparr>"

text \<open>\<open>series := make([]labels.Labels, len(output)); for _, s := range output
  { series[s.ID] = s.Metric }\<close>\<close>

fun fill_series :: "Series list \<Rightarrow> Labels list \<Rightarrow> 'e failure + Labels list" where
  "fill_series [] series' = Inr series'"
| "fill_series (s # rest) series' =
     (if length series' \<le> ID s then Inl PanicIndexOutOfRange
      else fill_series rest (series'[ID s := Metric s]))"

text \<open>\<open>initOutputs\<close> returns the error (\<open>None\<close> for nil) and the operator as it has left it.
  The methods \<open>Series\<close> and \<open>Next\<close> of \<open>vectorOperator\<close> are \<open>Series_op\<close> and \<open>Next_op\<close>
  below; those of \<open>numberLiteralSelector\<close> are \<open>nls_Series\<close> and \<open>nls_Next\<close>.\<close>

definition initOutputs ::
  "('l, 'r, 'e, 'v, 'op, 'tbl) env \<Rightarrow> ('l, 'r, 'op, 'tbl) vectorOperator
     \<Rightarrow> 'e failure option \<times> ('l, 'r, 'op, 'tbl) vectorOperator" where
  "initOutputs E o0 =
     (case opSeries (lhsOp E) (lhs o0) of
        (Inl e, l') \<Rightarrow> (Some e, o0\<lparr>lhs := l'\<rparr>)
      | (Inr lhsSeries, l') \<Rightarrow>
     (case opSeries (rhsOp E) (rhs o0) of
        (Inl e, r') \<Rightarrow> (Some e, o0\<lparr>lhs := l', rhs := r'\<rparr>)
      | (Inr rhsSeries, r') \<Rightarrow>
     (let o1 = o0\<lparr>lhs := l', rhs := r'\<rparr>;
          (highCardSide, lowCardSide) =
             (if Card (matching o1) = CardOneToMany then (rhsSeries, lhsSeries)
              else (lhsSeries, rhsSeries));
          (highCardHashes, highCardInputMap) =
             hashSeries (hashLabels E) (matching o1) highCardSide True;
          (lowCardHashes, lowCardInputMap) =
             hashSeries (hashLabels E) (matching o1) lowCardSide False
      in case join (order1 E) (order2 E) highCardHashes highCardInputMap
                lowCardHashes lowCardInputMap of
           Inl e \<Rightarrow> (Some e, o1)
         | Inr (output, highCardOutputIndex', lowCardOutputIndex') \<Rightarrow>
        (case fill_series output (replicate (length output) []) of
           Inl e \<Rightarrow> (Some e, o1)
         | Inr series' \<Rightarrow>
        (let o2 = o1\<lparr>series := series',
                     highCardOutputIndex := highCardOutputIndex',
                     lowCardOutputIndex := lowCardOutputIndex',
                     outputCache := length series',
                     stepSize := length highCardSide\<rparr>
         in case newTable E (Card (matching o2)) (operation o2) (outputCache o2)
                   highCardOutputIndex' lowCardOutputIndex' of
              Inl e \<Rightarrow> (Some (Error e), o2)
            | Inr t \<Rightarrow> (None, o2\<lparr>table := Some t\<rparr>))))))"

text \<open>\<open>o.once.Do(func() { err = o.initOutputs(ctx) })\<close>\<close>

definition once_initOutputs ::
  "('l, 'r, 'e, 'v, 'op, 'tbl) env \<Rightarrow> ('l, 'r, 'op, 'tbl) vectorOperator
     \<Rightarrow> 'e failure option \<times> ('l, 'r, 'op, 'tbl) vectorOperator" where
  "once_initOutputs E o0 =
     (if once o0 then (None, o0) else initOutputs E (o0\<lparr>once := True\<rparr>))"

definition Series_op ::
  "('l, 'r, 'e, 'v, 'op, 'tbl) env \<Rightarrow> ('l, 'r, 'op, 'tbl) vectorOperator
     \<Rightarrow> ('e failure + Labels list) \<times> ('l, 'r, 'op, 'tbl) vectorOperator" where
  "Series_op E o0 =
     (case once_initOutputs E o0 of
        (Some e, o1) \<Rightarrow> (Inl e, o1)
      | (None, o1) \<Rightarrow> (Inr (series o1), o1))"

text \<open>The step loop of \<open>Next\<close>: \<open>for i, vector := range lhs\<close>. The state carried along is the
  batch and the two children, whose pools take the step vectors back.\<close>

fun step_loop ::
  "('l, 'r, 'e, 'v, 'op, 'tbl) env \<Rightarrow> 'tbl \<Rightarrow> 'v StepVector list \<Rightarrow> 'v StepVector list \<Rightarrow> nat
     \<Rightarrow> 'v StepVector list \<times> 'l \<times> 'r \<Rightarrow> 'e failure + 'v StepVector list \<times> 'l \<times> 'r" where
  "step_loop E t rhsBatch [] i st = Inr st"
| "step_loop E t rhsBatch (vector # rest) i (batch, l, r) =
     (if length rhsBatch \<le> i then Inl PanicIndexOutOfRange
      else
        let step' = execBinaryOperation E t vector (rhsBatch ! i);
            batch' = batch @ [step'];
            l' = opPutStepVector (lhsOp E) vector l;
            r' = (if i < length rhsBatch then opPutStepVector (rhsOp E) (rhsBatch ! i) r else r)
        in step_loop E t rhsBatch rest (i + 1) (batch', l', r'))"

text \<open>\<open>Next\<close>. A call of \<open>execBinaryOperation\<close> on a nil table is taken to panic.\<close>

definition Next_op ::
  "('l, 'r, 'e, 'v, 'op, 'tbl) env \<Rightarrow> ('l, 'r, 'op, 'tbl) vectorOperator
     \<Rightarrow> ('e failure + 'v StepVector list) \<times> ('l, 'r, 'op, 'tbl) vectorOperator" where
  "Next_op E o0 =
     (case opNext (lhsOp E) (lhs o0) of
        (Inl e, l') \<Rightarrow> (Inl e, o0\<lparr>lhs := l'\<rparr>)
      | (Inr lhsBatch, l') \<Rightarrow>
     (case opNext (rhsOp E) (rhs o0) of
        (Inl e, r') \<Rightarrow> (Inl e, o0\<lparr>lhs := l', rhs := r'\<rparr>)
      | (Inr rhsBatch, r') \<Rightarrow>
     (let o1 = o0\<lparr>lhs := l', rhs := r'\<rparr> in
      if length lhsBatch = 0 \<or> length rhsBatch = 0 then (Inr [], o1)
      else
        case once_initOutputs E o1 of
          (Some e, o2) \<Rightarrow> (Inl e, o2)
        | (None, o2) \<Rightarrow>
       (case table o2 of
          None \<Rightarrow> (Inl PanicNilDereference, o2)
        | Some t \<Rightarrow>
       (case step_loop E t rhsBatch lhsBatch 0 (GetVectorBatch, lhs o2, rhs o2) of
          Inl e \<Rightarrow> (Inl e, o2)
        | Inr (batch, l2, r2) \<Rightarrow>
            (Inr batch,
             o2\<lparr>lhs := opPutVectors (lhsOp E) lhsBatch l2,
                rhs := opPutVectors (rhsOp E) rhsBatch r2\<rparr>))))))"

section \<open>The number-literal selector\<close>

text \<open>The selector has fields \<open>series\<close> and \<open>once\<close> as the binary operator has; from here
  on the binary operator's are written \<open>vectorOperator.series\<close> and \<open>vectorOperator.once\<close>.\<close>

type_synonym 'v FunctionCall = "Labels \<Rightarrow> 'v Point list \<Rightarrow> int \<Rightarrow> 'v Point"

record 'v numberLiteralSelector =
  mint :: int
  maxt :: int
  step :: int
  currentStep :: int
  stepsBatch :: int
  series :: "Labels list"
  once :: bool
  val :: 'v
  call :: "'v FunctionCall option"

definition NewNumberLiteralSelector ::
  "int \<Rightarrow> int \<Rightarrow> int \<Rightarrow> int \<Rightarrow> 'v \<Rightarrow> 'v FunctionCall option \<Rightarrow> 'v numberLiteralSelector" where
  "NewNumberLiteralSelector mint' maxt' step' stepsBatch' val' call' =
     \<lparr>mint = mint', maxt = maxt', step = step', currentStep = mint',
      stepsBatch = stepsBatch', series = [], once = False, val = val', call = call'\<rparr>"

text \<open>\<open>loadSeries\<close>: the one-shot initialisation of the series list. \<open>make([]labels.Labels, 1)\<close>
  holds one nil label set and \<open>labels.New()\<close> is the empty label set; both are \<open>[]\<close> here.\<close>

definition loadSeries :: "'v numberLiteralSelector \<Rightarrow> 'v numberLiteralSelector" where
  "loadSeries s =
     (if once s then s
      else s\<lparr>series := (if call s \<noteq> None then [[]] else [[]]), once := True\<rparr>)"

definition nls_Series :: "'v numberLiteralSelector \<Rightarrow> ('e failure + Labels list) \<times> 'v numberLiteralSelector" where
  "nls_Series s = (let s' = loadSeries s in (Inr (series s'), s'))"

text \<open>The loop of \<open>Next\<close>: \<open>for currStep := 0; currStep < numSteps && ts <= o.maxt; currStep++\<close>.\<close>

function nls_loop ::
  "'v numberLiteralSelector \<Rightarrow> int \<Rightarrow> int \<Rightarrow> int \<Rightarrow> 'v StepVector list
     \<Rightarrow> 'e failure + 'v StepVector list" where
  "nls_loop s numSteps currStep ts vectors =
     (if currStep < numSteps \<and> ts \<le> maxt s then
        let vectors1 = (if int (length vectors) \<le> currStep
                        then vectors @ [GetStepVector ts] else vectors);
            result = \<lparr>PointT = ts, PointV = val s\<rparr>
        in case (case call s of
                   None \<Rightarrow> Inr result
                 | Some f \<Rightarrow> (case series s of
                                [] \<Rightarrow> Inl PanicIndexOutOfRange
                              | l # _ \<Rightarrow> Inr (f l [result] ts))) of
             Inl e \<Rightarrow> Inl e
           | Inr result' \<Rightarrow>
               if currStep < 0 \<or> int (length vectors1) \<le> currStep then Inl PanicIndexOutOfRange
               else let v = vectors1 ! nat currStep;
                        vectors2 = vectors1[nat currStep :=
                          v\<lparr>T := PointT result',
                            SampleIDs := SampleIDs v @ [0],
                            Samples := Samples v @ [PointV result']\<rparr>]
                    in nls_loop s numSteps (currStep + 1) (wrap64 (ts + step s)) vectors2
      else Inr vectors)"
  by pat_completeness auto
termination
  by (relation "measure (\<lambda>(s, numSteps, currStep, ts, vectors). nat (numSteps - currStep))") auto

declare nls_loop.simps [simp del]

definition nls_Next ::
  "'v numberLiteralSelector \<Rightarrow> ('e failure + 'v StepVector list) \<times> 'v numberLiteralSelector" where
  "nls_Next s0 =
     (if currentStep s0 > maxt s0 then (Inr [], s0)
      else
        let s = loadSeries s0;
            totalSteps = (if step s \<noteq> 0
                          then wrap64 (wrap64 (quot (wrap64 (maxt s - mint s)) (step s)) + 1)
                          else 1);
            vectors = GetVectorBatch;
            numSteps = int_of_float64 (min (float64 (stepsBatch s)) (float64 totalSteps));
            ts = currentStep s
        in case nls_loop s numSteps 0 ts vectors of
             Inl e \<Rightarrow> (Inl e, s)
           | Inr vectors' \<Rightarrow>
               (Inr vectors', s\<lparr>currentStep := wrap64 (currentStep s + wrap64 (step s * numSteps))\<rparr>))"


text \<open>The number-literal selector as a child operator. Its pool is the stateless pool
  modelled above, so handing buffers back leaves the selector as it is.\<close>

definition nls_operator :: "('v numberLiteralSelector, 'e, 'v) VectorOperator" where
  "nls_operator =
     \<lparr>opSeries = nls_Series, opNext = nls_Next,
      opPutStepVector = (\<lambda>v s. s), opPutVectors = (\<lambda>b s. s)\<rparr>"


section \<open>Instances for the examples\<close>

text \<open>
  The closed examples below need some instance of what the operator takes from outside.
  \<open>length_hash\<close> stands in for the library's hash: it maps a label list to the number
  of characters in it. \<open>scripted\<close> is a child operator that plays back a list of
  results for \<open>Next\<close>, then returns empty batches, and always answers \<open>Series\<close> with
  \<open>ser\<close>. \<open>record_table\<close> builds a table that records what \<open>newTable\<close> received, and
  \<open>left_exec\<close> answers each pair of step vectors with a step vector at the left one's
  timestamp that holds the left samples whose series has an output id. \<open>demo_env\<close>
  puts them together for two scripted children with the given series lists, and
  \<open>demo_operator\<close> is a fresh operator over two scripts.
\<close>

definition length_hash :: "Labels \<Rightarrow> 64 word" where
  "length_hash ls = of_nat (length (concat (map (\<lambda>l. fst l @ snd l) ls)))"

definition scripted ::
  "('e failure + Labels list) \<Rightarrow> (('e failure + 'v StepVector list) list, 'e, 'v) VectorOperator" where
  "scripted ser =
     \<lparr>opSeries = (\<lambda>c. (ser, c)),
      opNext = (\<lambda>c. case c of [] \<Rightarrow> (Inr [], []) | x # xs \<Rightarrow> (x, xs)),
      opPutStepVector = (\<lambda>v c. c),
      opPutVectors = (\<lambda>b c. c)\<rparr>"

record 'op recorded_table =
  tCard :: VectorMatchCardinality
  tOperation :: 'op
  tCache :: nat
  tHigh :: "nat option list"
  tLow :: "nat list list"

definition record_table ::
  "VectorMatchCardinality \<Rightarrow> 'op \<Rightarrow> nat \<Rightarrow> nat option list \<Rightarrow> nat list list
     \<Rightarrow> 'e + 'op recorded_table" where
  "record_table c operation' n hc lc =
     Inr \<lparr>tCard = c, tOperation = operation', tCache = n, tHigh = hc, tLow = lc\<rparr>"

definition left_exec ::
  "'op recorded_table \<Rightarrow> 'v StepVector \<Rightarrow> 'v StepVector \<Rightarrow> 'v StepVector" where
  "left_exec t l r =
     (let kept = filter (\<lambda>p. fst p < length (tHigh t) \<and> tHigh t ! fst p \<noteq> None)
                   (zip (SampleIDs l) (Samples l))
      in \<lparr>T = T l, SampleIDs = map (\<lambda>p. the (tHigh t ! fst p)) kept, Samples = map snd kept\<rparr>)"

type_synonym script = "(unit failure + int StepVector list) list"

definition demo_env ::
  "Labels list \<Rightarrow> Labels list \<Rightarrow> 64 word list \<Rightarrow> 64 word list
     \<Rightarrow> (script, script, unit, int, unit, unit recorded_table) env" where
  "demo_env lhsSeries rhsSeries ks1 ks2 =
     \<lparr>lhsOp = scripted (Inr lhsSeries), rhsOp = scripted (Inr rhsSeries),
      hashLabels = length_hash, newTable = record_table,
      execBinaryOperation = left_exec, order1 = ks1, order2 = ks2\<rparr>"

definition demo_operator ::
  "script \<Rightarrow> script \<Rightarrow> VectorMatching \<Rightarrow> (script, script, unit, unit recorded_table) vectorOperator" where
  "demo_operator l r m = NewVectorOperator l r m ()"

text \<open>Two matchings, \<open>on(job)\<close> and \<open>ignoring(instance)\<close>, both one-to-one, and a few
  label sets. Under \<open>length_hash\<close> the signature of \<open>job="a"\<close> is 4 and that of
  \<open>job="bb"\<close> is 5.\<close>

definition on_job :: VectorMatching where
  "on_job = \<lparr>Card = CardOneToOne, MatchingLabels = [''job''], On = True, Include = []\<rparr>"

definition ignoring_instance :: VectorMatching where
  "ignoring_instance =
     \<lparr>Card = CardOneToOne, MatchingLabels = [''instance''], On = False, Include = []\<rparr>"

text \<open>Two matchings on two names, \<open>on(job, instance)\<close> and \<open>ignoring(job, instance)\<close>, with the
  names in the order the query gives them.\<close>

definition on_job_instance :: VectorMatching where
  "on_job_instance =
     \<lparr>Card = CardOneToOne, MatchingLabels = [''job'', ''instance''], On = True, Include = []\<rparr>"

definition ignoring_job_instance :: VectorMatching where
  "ignoring_job_instance =
     \<lparr>Card = CardOneToOne, MatchingLabels = [''job'', ''instance''], On = False, Include = []\<rparr>"

definition up_a1 :: Labels where
  "up_a1 = [(''__name__'', ''up''), (''instance'', ''1''), (''job'', ''a'')]"

definition up_a2 :: Labels where
  "up_a2 = [(''__name__'', ''up''), (''instance'', ''2''), (''job'', ''a'')]"

definition up_bb1 :: Labels where
  "up_bb1 = [(''__name__'', ''up''), (''instance'', ''1''), (''job'', ''bb'')]"

definition info_a :: Labels where
  "info_a = [(''__name__'', ''info''), (''job'', ''a'')]"

definition info_bb :: Labels where
  "info_bb = [(''__name__'', ''info''), (''job'', ''bb'')]"

text \<open>The binary operator's surroundings with two number-literal selectors as children.\<close>

definition literal_env ::
  "(int numberLiteralSelector, int numberLiteralSelector, unit, int, unit, unit recorded_table) env" where
  "literal_env =
     \<lparr>lhsOp = nls_operator, rhsOp = nls_operator, hashLabels = length_hash,
      newTable = record_table, execBinaryOperation = left_exec, order1 = [0], order2 = [0]\<rparr>"

section \<open>Notions used in the statements\<close>

text \<open>
  The join signature and the retained labels of one series under a matching, as
  \<open>hashSeries\<close> computes them for each series of a side; \<open>ids_with\<close> lists the indices of
  the series of a side that have the signature \<open>k\<close>.
\<close>

definition sig_of :: "(Labels \<Rightarrow> 64 word) \<Rightarrow> VectorMatching \<Rightarrow> bool \<Rightarrow> Labels \<Rightarrow> 64 word" where
  "sig_of h m keep s = fst (signature h s (\<not> On m) (MatchingLabels m) keep)"

definition lbl_of :: "(Labels \<Rightarrow> 64 word) \<Rightarrow> VectorMatching \<Rightarrow> bool \<Rightarrow> Labels \<Rightarrow> Labels" where
  "lbl_of h m keep s = snd (signature h s (\<not> On m) (MatchingLabels m) keep)"

definition ids_with :: "(Labels \<Rightarrow> 64 word) \<Rightarrow> VectorMatching \<Rightarrow> bool \<Rightarrow> Labels list \<Rightarrow> 64 word \<Rightarrow> nat list" where
  "ids_with h m keep ss k = filter (\<lambda>i. sig_of h m keep (ss ! i) = k) [0..<length ss]"

text \<open>The call of \<open>join\<close> in \<open>initOutputs\<close>, on the hashes of the two sides.\<close>

definition join_call ::
  "('l, 'r, 'e, 'v, 'op, 'tbl) env \<Rightarrow> VectorMatching \<Rightarrow> Labels list \<Rightarrow> Labels list
     \<Rightarrow> 'e failure + join_state" where
  "join_call E m highCardSide lowCardSide =
     (let (highCardHashes, highCardInputMap) = hashSeries (hashLabels E) m highCardSide True;
          (lowCardHashes, lowCardInputMap) = hashSeries (hashLabels E) m lowCardSide False
      in join (order1 E) (order2 E) highCardHashes highCardInputMap lowCardHashes lowCardInputMap)"

text \<open>
  \<open>valid_orders\<close>: the lists \<open>ks1\<close> and \<open>ks2\<close> are orders that the two \<open>range\<close> loops of
  \<open>join\<close> can take when the operator is initialised on these two sides: the first
  enumerates the keys of \<open>highCardHashes\<close>, the second the keys the first loop has left.
\<close>

definition valid_orders ::
  "(Labels \<Rightarrow> 64 word) \<Rightarrow> VectorMatching \<Rightarrow> 64 word list \<Rightarrow> 64 word list
     \<Rightarrow> Labels list \<Rightarrow> Labels list \<Rightarrow> bool" where
  "valid_orders h m ks1 ks2 highCardSide lowCardSide =
     (let highCardHashes = fst (hashSeries h m highCardSide True);
          lowCardHashes = fst (hashSeries h m lowCardSide False)
      in range_order ks1 highCardHashes \<and>
         range_order ks2 (snd (fold (prune_step lowCardHashes) ks1 (0, highCardHashes))))"

text \<open>
  The invariant of the second loop of \<open>join\<close>, for \<open>n\<close> high-cardinality series with
  retained labels \<open>lbl\<close>, when the series in \<open>D\<close> have been given an output.
\<close>

definition join_inv :: "nat \<Rightarrow> (nat \<Rightarrow> Labels) \<Rightarrow> nat set \<Rightarrow> join_state \<Rightarrow> bool" where
  "join_inv n lbl D st =
     (case st of (out, hc, lc) \<Rightarrow>
        length hc = n \<and>
        map ID out = [0..<length out] \<and>
        (\<forall>i<n. hc ! i = None \<longleftrightarrow> i \<notin> D) \<and>
        (\<forall>i<n. \<forall>k. hc ! i = Some k \<longrightarrow> k < length out \<and> Metric (out ! k) = lbl i) \<and>
        (\<forall>k<length out. \<exists>i<n. hc ! i = Some k) \<and>
        (\<forall>i<n. \<forall>j<n. \<forall>k. hc ! i = Some k \<and> hc ! j = Some k \<longrightarrow> i = j) \<and>
        (\<forall>l\<in>set lc. \<forall>k\<in>set l. k < length out))"

text \<open>
  The number of steps that one \<open>Next\<close> call of the number-literal selector takes
  (\<open>numSteps\<close> in the source), the selector after \<open>n\<close> calls of \<open>Next\<close>, and the states
  from which \<open>Next\<close> returns nothing: \<open>currentStep\<close> has passed \<open>maxt\<close> or \<open>numSteps\<close> is
  not positive.
\<close>

definition nls_numSteps :: "'v numberLiteralSelector \<Rightarrow> int" where
  "nls_numSteps s =
     int_of_float64 (min (float64 (stepsBatch s))
       (float64 (if step s \<noteq> 0
                 then wrap64 (wrap64 (quot (wrap64 (maxt s - mint s)) (step s)) + 1)
                 else 1)))"

primrec nls_after :: "nat \<Rightarrow> 'v numberLiteralSelector \<Rightarrow> 'v numberLiteralSelector" where
  "nls_after 0 s = s"
| "nls_after (Suc n) s =
     snd (nls_Next (nls_after n s) :: (unit failure + 'v StepVector list) \<times> 'v numberLiteralSelector)"

definition nls_ended :: "'v numberLiteralSelector \<Rightarrow> bool" where
  "nls_ended s = (currentStep s > maxt s \<or> nls_numSteps s \<le> 0)"

text \<open>The binary operator after \<open>n\<close> calls of \<open>Next\<close>.\<close>

primrec Next_after ::
  "('l, 'r, 'e, 'v, 'op, 'tbl) env \<Rightarrow> nat \<Rightarrow> ('l, 'r, 'op, 'tbl) vectorOperator
     \<Rightarrow> ('l, 'r, 'op, 'tbl) vectorOperator" where
  "Next_after E 0 o0 = o0"
| "Next_after E (Suc n) o0 = snd (Next_op E (Next_after E n o0))"

text \<open>
  The step vector that the number-literal selector emits for the timestamp \<open>ts\<close>
  (the loop body of \<open>Next\<close> on a fresh step vector, with the one label set of
  \<open>loadSeries\<close>), the step vectors of the first \<open>n\<close> calls of \<open>Next\<close> one after the
  other, and the selector of a query from \<open>mn\<close> to \<open>mx\<close> with step \<open>st\<close> that has
  advanced by \<open>a\<close> steps.
\<close>

definition literal_step :: "'v numberLiteralSelector \<Rightarrow> int \<Rightarrow> 'v StepVector" where
  "literal_step s ts =
     (let result = (case call s of
                      None \<Rightarrow> \<lparr>PointT = ts, PointV = val s\<rparr>
                    | Some f \<Rightarrow> f [] [\<lparr>PointT = ts, PointV = val s\<rparr>] ts)
      in \<lparr>T = PointT result, SampleIDs = [0], Samples = [PointV result]\<rparr>)"

primrec nls_emitted :: "nat \<Rightarrow> 'v numberLiteralSelector \<Rightarrow> 'v StepVector list" where
  "nls_emitted 0 s = []"
| "nls_emitted (Suc n) s =
     (case fst (nls_Next s :: (unit failure + 'v StepVector list) \<times> 'v numberLiteralSelector) of
        Inl e \<Rightarrow> []
      | Inr b \<Rightarrow> b)
     @ nls_emitted n
         (snd (nls_Next s :: (unit failure + 'v StepVector list) \<times> 'v numberLiteralSelector))"

definition in_range_query ::
  "int \<Rightarrow> int \<Rightarrow> int \<Rightarrow> int \<Rightarrow> 'v \<Rightarrow> 'v FunctionCall option \<Rightarrow> int
     \<Rightarrow> 'v numberLiteralSelector \<Rightarrow> bool" where
  "in_range_query mn mx st sb v c a s =
     (mint s = mn \<and> maxt s = mx \<and> step s = st \<and> stepsBatch s = sb \<and> val s = v \<and> call s = c
      \<and> (if once s then series s = [[]] else True)
      \<and> currentStep s = mn + a * st \<and> 0 \<le> a)"

section \<open>Labels, signatures and buckets\<close>



lemma BuilderLabels_Del_drop:
  "BuilderLabels (Del (ns @ [MetricName]) (Del [MetricName] (NewBuilder s))) =
     filter (\<lambda>l. fst l \<noteq> MetricName \<and> fst l \<notin> set ns) s"
  unfolding BuilderLabels_def Del_def NewBuilder_def
  by (rule filter_cong) auto


lemma signature_key:
  "fst (signature h s without ns keep) =
     (if without then h (without_labels s (ns @ [MetricName]))
      else if ns = [] then 0 else h (for_labels s ns))"
  by (simp add: signature_def Let_def HashWithoutLabels_def HashForLabels_def)

text \<open>\<open>string_less\<close> is a strict linear order, and on sorted names the two walks select
  the labels by name.\<close>

lemma string_less_irrefl [simp]: "\<not> string_less a a"
  by (induction a) simp_all

lemma string_less_trans: "string_less a b \<Longrightarrow> string_less b c \<Longrightarrow> string_less a c"
proof (induction a arbitrary: b c)
  case Nil
  then show ?case by (cases b; cases c) simp_all
next
  case (Cons x xs)
  from Cons.prems obtain y ys where b: "b = y # ys" by (cases b) simp_all
  from Cons.prems b obtain z zs where c: "c = z # zs" by (cases c) simp_all
  from Cons.prems(1) b have 1: "(of_char x :: nat) < of_char y \<or> (x = y \<and> string_less xs ys)"
    by simp
  from Cons.prems(2) b c have 2: "(of_char y :: nat) < of_char z \<or> (y = z \<and> string_less ys zs)"
    by simp
  have "(of_char x :: nat) < of_char z \<or> (x = z \<and> string_less xs zs)"
    using 1 2 Cons.IH[of ys zs] by (elim disjE conjE) simp_all
  then show ?case by (simp add: c)
qed

lemma string_less_total: "\<not> string_less a b \<Longrightarrow> \<not> string_less b a \<Longrightarrow> a = b"
proof (induction a arbitrary: b)
  case Nil
  then show ?case by (cases b) simp_all
next
  case (Cons x xs)
  from Cons.prems obtain y ys where b: "b = y # ys" by (cases b) simp_all
  from Cons.prems b have 1: "\<not> (of_char x :: nat) < of_char y" "\<not> (of_char y :: nat) < of_char x"
    by simp_all
  then have "(of_char x :: nat) = of_char y" by linarith
  then have xy: "x = y" by simp
  with Cons.prems b have "\<not> string_less xs ys" "\<not> string_less ys xs" by simp_all
  then have "xs = ys" by (rule Cons.IH)
  then show ?case by (simp add: b xy)
qed

lemma for_labels_sorted:
  "sorted_wrt string_less (map fst ls) \<Longrightarrow> sorted_wrt string_less names \<Longrightarrow>
   for_labels ls names = filter (\<lambda>l. fst l \<in> set names) ls"
proof (induction ls names rule: for_labels.induct)
  case (1 names)
  then show ?case by simp
next
  case (2 l ls)
  then show ?case by simp
next
  case (3 l ls n names)
  show ?case
  proof (cases "string_less n (fst l)")
    case True
    have "\<forall>l' \<in> set (l # ls). fst l' \<noteq> n"
      using 3(4) True by (auto dest: string_less_trans)
    then have "filter (\<lambda>l. fst l \<in> set (n # names)) (l # ls) = filter (\<lambda>l. fst l \<in> set names) (l # ls)"
      by (intro filter_cong) auto
    then show ?thesis using 3 True by simp
  next
    case False
    show ?thesis
    proof (cases "string_less (fst l) n")
      case True
      have "fst l \<notin> set (n # names)"
        using 3(5) True by (auto dest: string_less_trans)
      then show ?thesis using 3 False True by simp
    next
      case F2: False
      have e: "fst l = n" using string_less_total[OF F2 False] by simp
      have "\<forall>l' \<in> set ls. fst l' \<noteq> n"
        using 3(4) e by auto
      then have "filter (\<lambda>l. fst l \<in> set (n # names)) ls = filter (\<lambda>l. fst l \<in> set names) ls"
        by (intro filter_cong) auto
      then show ?thesis using 3 False F2 e by simp
    qed
  qed
qed

lemma dropWhile_sorted_set:
  "sorted_wrt string_less ns \<Longrightarrow>
   set (dropWhile (\<lambda>n. string_less n a) ns) = {n \<in> set ns. \<not> string_less n a}"
proof (induction ns)
  case Nil
  then show ?case by simp
next
  case (Cons n ns)
  show ?case
  proof (cases "string_less n a")
    case True
    then show ?thesis using Cons by auto
  next
    case False
    have "\<forall>n' \<in> set ns. \<not> string_less n' a"
      using Cons.prems False by (auto dest: string_less_trans)
    then show ?thesis using False by auto
  qed
qed

lemma dropWhile_sorted_hd:
  assumes "sorted_wrt string_less ns"
  shows "a \<in> set ns \<longleftrightarrow>
         (dropWhile (\<lambda>n. string_less n a) ns \<noteq> [] \<and> hd (dropWhile (\<lambda>n. string_less n a) ns) = a)"
  using assms
proof (induction ns)
  case Nil
  then show ?case by simp
next
  case (Cons n ns)
  show ?case
  proof (cases "string_less n a")
    case True
    then show ?thesis using Cons by auto
  next
    case False
    have "a \<notin> set ns" if "n \<noteq> a"
    proof
      assume "a \<in> set ns"
      then have "string_less n a" using Cons.prems by auto
      then show False using False by simp
    qed
    then show ?thesis using False by auto
  qed
qed

lemma without_labels_sorted:
  "sorted_wrt string_less (map fst ls) \<Longrightarrow> sorted_wrt string_less ns \<Longrightarrow>
   set es \<subseteq> {MetricName} \<Longrightarrow>
   without_labels ls (ns @ es) = filter (\<lambda>l. fst l \<noteq> MetricName \<and> fst l \<notin> set ns) ls"
proof (induction ls arbitrary: ns es)
  case Nil
  then show ?case by simp
next
  case (Cons l ls)
  let ?P = "\<lambda>n. string_less n (fst l)"
  let ?ns = "dropWhile ?P ns"
  have sl: "sorted_wrt string_less (map fst ls)" using Cons.prems(1) by simp
  have rest: "filter (\<lambda>l. fst l \<noteq> MetricName \<and> fst l \<notin> set ?ns) ls
            = filter (\<lambda>l. fst l \<noteq> MetricName \<and> fst l \<notin> set ns) ls"
  proof (rule filter_cong[OF refl])
    fix l' assume l': "l' \<in> set ls"
    then have lt: "string_less (fst l) (fst l')" using Cons.prems(1) by auto
    have "\<not> string_less (fst l') (fst l)"
    proof
      assume "string_less (fst l') (fst l)"
      then have "string_less (fst l) (fst l)" using lt by (rule string_less_trans[rotated])
      then show False by simp
    qed
    then show "(fst l' \<noteq> MetricName \<and> fst l' \<notin> set ?ns) = (fst l' \<noteq> MetricName \<and> fst l' \<notin> set ns)"
      by (auto simp: dropWhile_sorted_set[OF Cons.prems(2)])
  qed
  show ?case
  proof (cases "?ns = []")
    case True
    let ?es = "dropWhile ?P es"
    from True have all: "\<forall>n \<in> set ns. ?P n" by (simp add: dropWhile_eq_Nil_conv)
    then have dw: "dropWhile ?P (ns @ es) = ?es" by simp
    have ses: "set ?es \<subseteq> {MetricName}"
      using Cons.prems(3) by (auto dest: set_dropWhileD)
    have c: "(fst l = MetricName \<or> (?es \<noteq> [] \<and> fst l = hd ?es)) = (fst l = MetricName)"
    proof (cases "?es = []")
      case True
      then show ?thesis by simp
    next
      case False
      then have "hd ?es \<in> set ?es" by (rule hd_in_set)
      then have "hd ?es = MetricName" using ses by auto
      then show ?thesis by auto
    qed
    have notin: "fst l \<notin> set ns"
    proof
      assume "fst l \<in> set ns"
      then have "string_less (fst l) (fst l)" using all by blast
      then show False by simp
    qed
    have "without_labels ls ([] @ ?es)
            = filter (\<lambda>l. fst l \<noteq> MetricName \<and> fst l \<notin> set []) ls"
      by (rule Cons.IH[OF sl _ ses]) simp
    then have ih: "without_labels ls ?es
            = filter (\<lambda>l. fst l \<noteq> MetricName \<and> fst l \<notin> set ns) ls"
      using rest True by simp
    have step: "without_labels (l # ls) (ns @ es)
            = (if fst l = MetricName then without_labels ls ?es else l # without_labels ls ?es)"
      unfolding without_labels.simps Let_def dw c ..
    show ?thesis unfolding step using ih notin by (cases "fst l = MetricName") simp_all
  next
    case False
    then obtain x where "x \<in> set ns" "\<not> ?P x"
      by (auto simp: dropWhile_eq_Nil_conv)
    then have dw: "dropWhile ?P (ns @ es) = ?ns @ es"
      by (rule dropWhile_append1)
    have mem: "(?ns @ es \<noteq> [] \<and> fst l = hd (?ns @ es)) = (fst l \<in> set ns)"
      using dropWhile_sorted_hd[OF Cons.prems(2), of "fst l"] False by auto
    have "sorted_wrt string_less (takeWhile ?P ns @ ?ns)"
      using Cons.prems(2) by simp
    then have sns: "sorted_wrt string_less ?ns"
      unfolding sorted_wrt_append by blast
    have "without_labels ls (?ns @ es)
                = filter (\<lambda>l. fst l \<noteq> MetricName \<and> fst l \<notin> set ?ns) ls"
      by (rule Cons.IH[OF sl sns Cons.prems(3)])
    then have ih: "without_labels ls (?ns @ es)
                = filter (\<lambda>l. fst l \<noteq> MetricName \<and> fst l \<notin> set ns) ls"
      using rest by simp
    have step: "without_labels (l # ls) (ns @ es)
            = (if fst l = MetricName \<or> fst l \<in> set ns then without_labels ls (?ns @ es)
               else l # without_labels ls (?ns @ es))"
      unfolding without_labels.simps Let_def dw mem ..
    show ?thesis unfolding step using ih
      by (cases "fst l = MetricName \<or> fst l \<in> set ns") simp_all
  qed
qed

text \<open>When the names are sorted, as the library asks, and the labels are (a label set is
  kept sorted by name), the key is the hash of the labels selected by name.\<close>

lemma signature_key_sorted:
  assumes "sorted_wrt string_less (map fst s)" and "sorted_wrt string_less ns"
  shows "fst (signature h s without ns keep) =
     (if without then h (filter (\<lambda>l. fst l \<notin> set ns \<union> {MetricName}) s)
      else if ns = [] then 0 else h (filter (\<lambda>l. fst l \<in> set ns) s))"
proof -
  have "filter (\<lambda>l. fst l \<noteq> MetricName \<and> fst l \<notin> set ns) s
        = filter (\<lambda>l. fst l \<notin> set ns \<union> {MetricName}) s"
    by (rule filter_cong) auto
  then show ?thesis
    using for_labels_sorted[OF assms] without_labels_sorted[OF assms, of "[MetricName]"]
    by (simp add: signature_key)
qed

lemma ids_with_snoc:
  "ids_with h m keep (ss @ [s]) k =
     ids_with h m keep ss k @ (if sig_of h m keep s = k then [length ss] else [])"
  by (auto simp: ids_with_def nth_append intro!: filter_cong)

lemma hashSeries_snoc:
  "hashSeries h m (ss @ [s]) keep =
     hashSeries_step h m keep (length ss, s) (hashSeries h m ss keep)"
  by (simp add: hashSeries_def enumerate_append_eq)

lemma hashSeries_step_eq:
  "hashSeries_step h m keep (n, s) (H, I) =
     (let k = sig_of h m keep s in
      if H k = None then (H(k \<mapsto> [\<lparr>ID = n, Metric = lbl_of h m keep s\<rparr>]), I(k \<mapsto> [n]))
      else (H(k \<mapsto> bucket H k @ [\<lparr>ID = n, Metric = lbl_of h m keep s\<rparr>]),
            I(k \<mapsto> bucket I k @ [n])))"
  by (simp add: hashSeries_step_def sig_of_def lbl_of_def Let_def split_beta bucket_def)

lemma hashSeries_char:
  "hashSeries h m ss keep =
     ((\<lambda>k. if ids_with h m keep ss k = [] then None
            else Some (map (\<lambda>i. \<lparr>ID = i, Metric = lbl_of h m keep (ss ! i)\<rparr>) (ids_with h m keep ss k))),
      (\<lambda>k. if ids_with h m keep ss k = [] then None else Some (ids_with h m keep ss k)))"
proof (induction ss rule: rev_induct)
  case Nil
  then show ?case by (simp add: hashSeries_def ids_with_def)
next
  case (snoc s ss)
  have m: "map (\<lambda>i. \<lparr>ID = i, Metric = lbl_of h m keep ((ss @ [s]) ! i)\<rparr>) (ids_with h m keep ss k)
         = map (\<lambda>i. \<lparr>ID = i, Metric = lbl_of h m keep (ss ! i)\<rparr>) (ids_with h m keep ss k)" for k
    by (rule map_cong) (auto simp: ids_with_def nth_append)
  show ?case
    unfolding hashSeries_snoc snoc.IH hashSeries_step_eq
    by (auto simp: Let_def fun_eq_iff bucket_def ids_with_snoc m)
qed

lemma bucket_hashSeries:
  "bucket (fst (hashSeries h m ss keep)) k =
     map (\<lambda>i. \<lparr>ID = i, Metric = lbl_of h m keep (ss ! i)\<rparr>) (ids_with h m keep ss k)"
  "bucket (snd (hashSeries h m ss keep)) k = ids_with h m keep ss k"
  by (simp_all add: hashSeries_char bucket_def)

lemma set_ids_with: "set (ids_with h m keep ss k) = {i. i < length ss \<and> sig_of h m keep (ss ! i) = k}"
  by (auto simp: ids_with_def)

lemma distinct_ids_with: "distinct (ids_with h m keep ss k)"
  by (simp add: ids_with_def)

lemma ids_with_empty_iff:
  "ids_with h m keep ss k = [] \<longleftrightarrow> k \<notin> sig_of h m keep ` set ss"
proof
  assume "ids_with h m keep ss k = []"
  then have "\<forall>i<length ss. sig_of h m keep (ss ! i) \<noteq> k"
    by (simp add: ids_with_def filter_empty_conv)
  then show "k \<notin> sig_of h m keep ` set ss"
    by (auto simp: in_set_conv_nth)
next
  assume "k \<notin> sig_of h m keep ` set ss"
  then have "\<forall>i<length ss. sig_of h m keep (ss ! i) \<noteq> k"
    by (metis imageI nth_mem)
  then show "ids_with h m keep ss k = []"
    by (simp add: ids_with_def filter_empty_conv)
qed

lemma hashSeries_None_iff:
  "fst (hashSeries h m ss keep) k = None \<longleftrightarrow> k \<notin> sig_of h m keep ` set ss"
  "snd (hashSeries h m ss keep) k = None \<longleftrightarrow> k \<notin> sig_of h m keep ` set ss"
  by (simp_all add: hashSeries_char ids_with_empty_iff)

lemma dom_hashSeries:
  "dom (fst (hashSeries h m ss keep)) = sig_of h m keep ` set ss"
  "dom (snd (hashSeries h m ss keep)) = sig_of h m keep ` set ss"
  using hashSeries_None_iff[of h m ss keep] by (auto simp: dom_def)

lemma prune_step_eq:
  "prune_step lh k (n, hh) =
     (n + length (bucket hh k), if lh k = None then hh(k := None) else hh)"
  by (simp add: prune_step_def Let_def)

lemma fold_prune_step:
  "distinct ks \<Longrightarrow>
   fold (prune_step lh) ks (n, hh) =
     (n + sum_list (map (\<lambda>k. length (bucket hh k)) ks),
      (\<lambda>k. if k \<in> set ks \<and> lh k = None then None else hh k))"
proof (induction ks arbitrary: n hh)
  case Nil
  then show ?case by simp
next
  case (Cons k ks)
  let ?hh = "if lh k = None then hh(k := None) else hh"
  have d: "distinct ks" and nk: "k \<notin> set ks"
    using Cons.prems by auto
  have b: "map (\<lambda>k'. length (bucket ?hh k')) ks = map (\<lambda>k'. length (bucket hh k')) ks"
    using nk by (intro map_cong) (auto simp: bucket_def)
  have "fold (prune_step lh) (k # ks) (n, hh) = fold (prune_step lh) ks (n + length (bucket hh k), ?hh)"
    by (simp only: fold_simps prune_step_eq)
  also have "\<dots> = (n + length (bucket hh k) + sum_list (map (\<lambda>k'. length (bucket ?hh k')) ks),
      (\<lambda>k'. if k' \<in> set ks \<and> lh k' = None then None else ?hh k'))"
    by (rule Cons.IH[OF d])
  also have "\<dots> = (n + sum_list (map (\<lambda>k. length (bucket hh k)) (k # ks)),
      (\<lambda>k'. if k' \<in> set (k # ks) \<and> lh k' = None then None else hh k'))"
    unfolding b by (auto simp: fun_eq_iff)
  finally show ?case .
qed

lemma sum_bucket_sizes:
  assumes "distinct ks" "set ks = f ` {..<n}"
  shows "sum_list (map (\<lambda>k. length (filter (\<lambda>i. f i = k) [0..<n])) ks) = n"
proof -
  have "sum_list (map (\<lambda>k. length (filter (\<lambda>i. f i = k) [0..<n])) ks)
        = (\<Sum>k\<in>set ks. length (filter (\<lambda>i. f i = k) [0..<n]))"
    using assms(1) by (simp add: sum_list_distinct_conv_sum_set)
  also have "\<dots> = (\<Sum>k\<in>f ` {..<n}. card {i \<in> {..<n}. f i = k})"
    unfolding assms(2)
    by (rule sum.cong) (auto simp: length_filter_conv_card intro!: arg_cong[where f=card])
  also have "\<dots> = (\<Sum>k\<in>f ` {..<n}. \<Sum>i\<in>{i \<in> {..<n}. f i = k}. 1)"
    by simp
  also have "\<dots> = (\<Sum>i\<in>{..<n}. 1)"
    by (rule sum.group) auto
  finally show ?thesis by simp
qed

lemma join_inv_init: "join_inv n lbl {} ([], replicate n None, replicate n [])"
  by (simp add: join_inv_def)

lemma join_inv_reset:
  assumes "join_inv n lbl D (out, hc, lc)"
  shows "join_inv n lbl D (out, hc, lc[lid := []])"
proof -
  have "set (lc[lid := []]) \<subseteq> insert [] (set lc)"
    by (rule set_update_subset_insert)
  then have "\<forall>l\<in>set (lc[lid := []]). \<forall>k\<in>set l. k < length out"
    using assms by (auto simp: join_inv_def)
  then show ?thesis
    using assms by (simp add: join_inv_def)
qed

lemma join_inv_add:
  assumes inv: "join_inv n lbl D (out, hc, lc)"
    and hid: "hid < n" "hid \<notin> D" and m: "ml = lbl hid"
  shows "join_inv n lbl (insert hid D)
           (out @ [\<lparr>ID = length out, Metric = ml\<rparr>], hc[hid := Some (length out)],
            lc[lid := lc ! lid @ [length out]])"
proof -
  from inv have len: "length hc = n"
    and ids: "map ID out = [0..<length out]"
    and none: "\<forall>i<n. hc ! i = None \<longleftrightarrow> i \<notin> D"
    and some: "\<forall>i<n. \<forall>k. hc ! i = Some k \<longrightarrow> k < length out \<and> Metric (out ! k) = lbl i"
    and surj: "\<forall>k<length out. \<exists>i<n. hc ! i = Some k"
    and inj: "\<forall>i<n. \<forall>j<n. \<forall>k. hc ! i = Some k \<and> hc ! j = Some k \<longrightarrow> i = j"
    and low: "\<forall>l\<in>set lc. \<forall>k\<in>set l. k < length out"
    by (auto simp: join_inv_def)
  let ?out = "out @ [\<lparr>ID = length out, Metric = ml\<rparr>]"
  let ?hc = "hc[hid := Some (length out)]"
  let ?lc = "lc[lid := lc ! lid @ [length out]]"
  have hnone: "hc ! hid = None"
    using none hid by simp
  have 1: "length ?hc = n" using len by simp
  have 2: "map ID ?out = [0..<length ?out]" using ids by simp
  have 3: "\<forall>i<n. ?hc ! i = None \<longleftrightarrow> i \<notin> insert hid D"
  proof (intro allI impI)
    fix i assume i: "i < n"
    show "?hc ! i = None \<longleftrightarrow> i \<notin> insert hid D"
    proof (cases "i = hid")
      case True
      then show ?thesis using len i by simp
    next
      case False
      then show ?thesis using none i by simp
    qed
  qed
  have 4: "\<forall>i<n. \<forall>k. ?hc ! i = Some k \<longrightarrow> k < length ?out \<and> Metric (?out ! k) = lbl i"
  proof (intro allI impI)
    fix i k assume i: "i < n" and e: "?hc ! i = Some k"
    show "k < length ?out \<and> Metric (?out ! k) = lbl i"
    proof (cases "i = hid")
      case True
      then have "k = length out" using e len i by simp
      then show ?thesis using True m by simp
    next
      case False
      then have "hc ! i = Some k" using e by simp
      then have "k < length out \<and> Metric (out ! k) = lbl i" using some i by blast
      then show ?thesis by (simp add: nth_append)
    qed
  qed
  have 5: "\<forall>k<length ?out. \<exists>i<n. ?hc ! i = Some k"
  proof (intro allI impI)
    fix k assume k: "k < length ?out"
    show "\<exists>i<n. ?hc ! i = Some k"
    proof (cases "k = length out")
      case True
      then show ?thesis using hid len by (intro exI[of _ hid]) simp
    next
      case False
      then have "k < length out" using k by simp
      then obtain i where i: "i < n" "hc ! i = Some k" using surj by blast
      then have "i \<noteq> hid" using hnone by auto
      then show ?thesis using i by (intro exI[of _ i]) simp
    qed
  qed
  have 6: "\<forall>i<n. \<forall>j<n. \<forall>k. ?hc ! i = Some k \<and> ?hc ! j = Some k \<longrightarrow> i = j"
  proof (intro allI impI)
    fix i j k assume i: "i < n" and j: "j < n" and e: "?hc ! i = Some k \<and> ?hc ! j = Some k"
    show "i = j"
    proof (cases "i = hid")
      case True
      then have k: "k = length out" using e len i by simp
      show ?thesis
      proof (rule ccontr)
        assume "i \<noteq> j"
        then have "hc ! j = Some k" using e True by simp
        then have "k < length out" using some j by blast
        then show False using k by simp
      qed
    next
      case False
      then have hi: "hc ! i = Some k" using e by simp
      then have kl: "k < length out" using some i by blast
      have "j \<noteq> hid"
      proof
        assume "j = hid"
        then have "k = length out" using e len j by simp
        then show False using kl by simp
      qed
      then have "hc ! j = Some k" using e by simp
      then show ?thesis using hi inj i j by blast
    qed
  qed
  have 7: "\<forall>l\<in>set ?lc. \<forall>k\<in>set l. k < length ?out"
  proof (intro ballI)
    fix l k assume l: "l \<in> set ?lc" and k: "k \<in> set l"
    show "k < length ?out"
    proof (cases "lid < length lc")
      case True
      have "set ?lc \<subseteq> insert (lc ! lid @ [length out]) (set lc)"
        by (rule set_update_subset_insert)
      then have "l = lc ! lid @ [length out] \<or> l \<in> set lc" using l by auto
      moreover have "lc ! lid \<in> set lc" using True by simp
      ultimately have "k = length out \<or> (\<exists>l'\<in>set lc. k \<in> set l')" using k by auto
      then show ?thesis using low by (auto simp: less_Suc_eq)
    next
      case False
      then have "?lc = lc" by (simp add: list_update_beyond)
      then have "k < length out" using low l k by auto
      then show ?thesis by simp
    qed
  qed
  show ?thesis
    unfolding join_inv_def using 1 2 3 4 5 6 7 by simp
qed

lemma join_inner_inv:
  assumes "join_inner hin lid bs i (out, hc, lc) = (Inr st' :: 'e failure + join_state)"
    and "join_inv n lbl D (out, hc, lc)"
    and "length bs + i = length hin"
    and "\<forall>j<length bs. Metric (bs ! j) = lbl (hin ! (i + j))"
    and "distinct (drop i hin)" and "set (drop i hin) \<inter> D = {}" and "\<forall>x\<in>set (drop i hin). x < n"
  shows "join_inv n lbl (D \<union> set (drop i hin)) st'"
  using assms
proof (induction bs arbitrary: i out hc lc D)
  case Nil
  then show ?case by simp
next
  case (Cons b rest)
  let ?hid = "hin ! i"
  from Cons.prems(3) have i: "i < length hin" by simp
  then have dr: "drop i hin = ?hid # drop (Suc i) hin"
    by (simp add: Cons_nth_drop_Suc)
  have hid: "?hid < n" "?hid \<notin> D"
    using Cons.prems(6,7) dr by auto
  have mb: "Metric b = lbl ?hid"
    using Cons.prems(4) by fastforce
  have lenhc: "length hc = n" using Cons.prems(2) by (simp add: join_inv_def)
  let ?st = "(out @ [\<lparr>ID = length out, Metric = Metric b\<rparr>], hc[?hid := Some (length out)],
              lc[lid := lc ! lid @ [length out]])"
  have run: "join_inner hin lid rest (Suc i) ?st = (Inr st' :: 'e failure + join_state)"
    using Cons.prems(1) i hid lenhc by (simp add: Let_def split: if_splits)
  have inv': "join_inv n lbl (insert ?hid D) ?st"
    by (rule join_inv_add[OF Cons.prems(2) hid mb])
  have "join_inv n lbl (insert ?hid D \<union> set (drop (Suc i) hin)) st'"
  proof (rule Cons.IH[OF run inv'])
    show "length rest + Suc i = length hin" using Cons.prems(3) by simp
    show "\<forall>j<length rest. Metric (rest ! j) = lbl (hin ! (Suc i + j))"
      using Cons.prems(4) by fastforce
    show "distinct (drop (Suc i) hin)" using Cons.prems(5) dr by simp
    show "set (drop (Suc i) hin) \<inter> insert ?hid D = {}"
      using Cons.prems(5,6) dr by auto
    show "\<forall>x\<in>set (drop (Suc i) hin). x < n" using Cons.prems(7) dr by simp
  qed
  then show ?case by (simp add: dr)
qed

lemma join_outer_inv:
  assumes "join_outer hh hi li ks st = (Inr st' :: 'e failure + join_state)"
    and "join_inv n lbl D st"
    and "distinct ks"
    and "\<forall>k\<in>set ks. bucket hh k = map (\<lambda>i. \<lparr>ID = i, Metric = lbl i\<rparr>) (bucket hi k)
            \<and> distinct (bucket hi k) \<and> set (bucket hi k) = {i. i < n \<and> sg i = k}"
    and "D \<inter> {i. i < n \<and> sg i \<in> set ks} = {}"
  shows "join_inv n lbl (D \<union> {i. i < n \<and> sg i \<in> set ks}) st'"
  using assms
proof (induction ks arbitrary: st D)
  case Nil
  then show ?case by simp
next
  case (Cons k ks)
  obtain out hc lc where st: "st = (out, hc, lc)" by (cases st)
  from Cons.prems(1) obtain lid lrest where li: "bucket li k = lid # lrest"
    unfolding st by (cases "bucket li k") simp_all
  from Cons.prems(1) have lid: "lid < length lc"
    unfolding st by (simp add: li split: if_splits)
  from Cons.prems(1) obtain st1 where
    inner: "join_inner (bucket hi k) lid (bucket hh k) 0 (out, hc, lc[lid := []])
              = (Inr st1 :: 'e failure + join_state)"
    and rest: "join_outer hh hi li ks st1 = (Inr st' :: 'e failure + join_state)"
    unfolding st using lid by (simp add: li split: sum.splits)
  from Cons.prems(4) have bk: "bucket hh k = map (\<lambda>i. \<lparr>ID = i, Metric = lbl i\<rparr>) (bucket hi k)"
    and dk: "distinct (bucket hi k)" and sk: "set (bucket hi k) = {i. i < n \<and> sg i = k}"
    by simp_all
  have inv0: "join_inv n lbl D (out, hc, lc[lid := []])"
    using Cons.prems(2) unfolding st by (rule join_inv_reset)
  have inv1: "join_inv n lbl (D \<union> set (drop 0 (bucket hi k))) st1"
  proof (rule join_inner_inv[OF inner inv0])
    show "length (bucket hh k) + 0 = length (bucket hi k)" by (simp add: bk)
    show "\<forall>j<length (bucket hh k). Metric (bucket hh k ! j) = lbl (bucket hi k ! (0 + j))"
      by (simp add: bk)
    show "distinct (drop 0 (bucket hi k))" using dk by simp
    show "set (drop 0 (bucket hi k)) \<inter> D = {}" using Cons.prems(5) sk by auto
    show "\<forall>x\<in>set (drop 0 (bucket hi k)). x < n" using sk by simp
  qed
  have "join_inv n lbl ((D \<union> set (bucket hi k)) \<union> {i. i < n \<and> sg i \<in> set ks}) st'"
  proof (rule Cons.IH[OF rest])
    show "join_inv n lbl (D \<union> set (bucket hi k)) st1" using inv1 by simp
    show "distinct ks" using Cons.prems(3) by simp
    show "\<forall>k\<in>set ks. bucket hh k = map (\<lambda>i. \<lparr>ID = i, Metric = lbl i\<rparr>) (bucket hi k)
            \<and> distinct (bucket hi k) \<and> set (bucket hi k) = {i. i < n \<and> sg i = k}"
      using Cons.prems(4) by simp
    show "(D \<union> set (bucket hi k)) \<inter> {i. i < n \<and> sg i \<in> set ks} = {}"
      using Cons.prems(3,5) sk by auto
  qed
  moreover have "(D \<union> set (bucket hi k)) \<union> {i. i < n \<and> sg i \<in> set ks}
                 = D \<union> {i. i < n \<and> sg i \<in> set (k # ks)}"
    using sk by auto
  ultimately show ?case by simp
qed

lemma sig_of_keep: "sig_of h m keep s = sig_of h m False s"
  by (simp add: sig_of_def signature_key)

lemma valid_orders_iff:
  "valid_orders h m ks1 ks2 hs ls \<longleftrightarrow>
     distinct ks1 \<and> set ks1 = sig_of h m False ` set hs \<and>
     distinct ks2 \<and> set ks2 = sig_of h m False ` set hs \<inter> sig_of h m False ` set ls"
proof -
  have h1: "dom (fst (hashSeries h m hs True)) = sig_of h m False ` set hs"
    using dom_hashSeries(1)[of h m hs True] sig_of_keep[of h m True] by simp
  have h2: "fst (hashSeries h m ls False) k = None \<longleftrightarrow> k \<notin> sig_of h m False ` set ls" for k
    by (rule hashSeries_None_iff)
  show ?thesis
  proof (cases "distinct ks1 \<and> set ks1 = sig_of h m False ` set hs")
    case True
    then have d: "distinct ks1" and s: "set ks1 = dom (fst (hashSeries h m hs True))"
      using h1 by simp_all
    have "dom (snd (fold (prune_step (fst (hashSeries h m ls False))) ks1
                 (0, fst (hashSeries h m hs True))))
          = sig_of h m False ` set hs \<inter> sig_of h m False ` set ls"
      unfolding fold_prune_step[OF d] using s h1 h2
      by (auto simp: dom_def split: if_splits)
    then show ?thesis
      using True h1 by (simp add: valid_orders_def range_order_def Let_def)
  next
    case False
    then show ?thesis
      using h1 by (auto simp: valid_orders_def range_order_def Let_def)
  qed
qed

lemma join_series_inv:
  assumes vo: "valid_orders h m ks1 ks2 hs ls"
    and run: "join ks1 ks2 (fst (hashSeries h m hs True)) (snd (hashSeries h m hs True))
                (fst (hashSeries h m ls False)) (snd (hashSeries h m ls False))
              = (Inr st' :: 'e failure + join_state)"
  shows "join_inv (length hs) (\<lambda>i. lbl_of h m True (hs ! i))
           {i. i < length hs \<and> sig_of h m False (hs ! i) \<in> sig_of h m False ` set ls} st'"
proof -
  let ?hh = "fst (hashSeries h m hs True)" and ?hi = "snd (hashSeries h m hs True)"
  let ?lh = "fst (hashSeries h m ls False)" and ?li = "snd (hashSeries h m ls False)"
  let ?n = "length hs"
  let ?sg = "\<lambda>i. sig_of h m False (hs ! i)"
  let ?lbl = "\<lambda>i. lbl_of h m True (hs ! i)"
  let ?P = "\<lambda>k. if k \<in> set ks1 \<and> ?lh k = None then None else ?hh k"
  from vo have d1: "distinct ks1" and s1: "set ks1 = sig_of h m False ` set hs"
    and d2: "distinct ks2"
    and s2: "set ks2 = sig_of h m False ` set hs \<inter> sig_of h m False ` set ls"
    by (simp_all add: valid_orders_iff)
  have ids: "ids_with h m True hs k = filter (\<lambda>i. ?sg i = k) [0..<?n]" for k
    unfolding ids_with_def by (rule filter_cong) (simp_all add: sig_of_keep[of h m True])
  have "set hs = (\<lambda>i. hs ! i) ` {..<?n}"
    by (auto simp: in_set_conv_nth)
  then have "set ks1 = ?sg ` {..<?n}"
    unfolding s1 by (simp add: image_image)
  then have size: "sum_list (map (\<lambda>k. length (bucket ?hh k)) ks1) = ?n"
    using sum_bucket_sizes[OF d1, of ?sg ?n] by (simp add: bucket_hashSeries ids)
  have fold: "fold (prune_step ?lh) ks1 (0, ?hh) = (?n, ?P)"
    using fold_prune_step[OF d1, of ?lh 0 ?hh] size by simp
  have run': "join_outer ?P ?hi ?li ks2 ([], replicate ?n None, replicate ?n [])
                = (Inr st' :: 'e failure + join_state)"
    using run by (simp add: join_def fold)
  have bk: "\<forall>k\<in>set ks2. bucket ?P k = map (\<lambda>i. \<lparr>ID = i, Metric = ?lbl i\<rparr>) (bucket ?hi k)
            \<and> distinct (bucket ?hi k) \<and> set (bucket ?hi k) = {i. i < ?n \<and> ?sg i = k}"
  proof
    fix k assume k: "k \<in> set ks2"
    then have "\<not> (k \<in> set ks1 \<and> ?lh k = None)" using s2 by (simp add: hashSeries_None_iff)
    then have "?P k = ?hh k" by (simp only: if_False)
    then have "bucket ?P k = bucket ?hh k" unfolding bucket_def by (rule arg_cong)
    then show "bucket ?P k = map (\<lambda>i. \<lparr>ID = i, Metric = ?lbl i\<rparr>) (bucket ?hi k)
            \<and> distinct (bucket ?hi k) \<and> set (bucket ?hi k) = {i. i < ?n \<and> ?sg i = k}"
      by (auto simp: bucket_hashSeries distinct_ids_with ids)
  qed
  have "join_inv ?n ?lbl ({} \<union> {i. i < ?n \<and> ?sg i \<in> set ks2}) st'"
    by (rule join_outer_inv[OF run' join_inv_init d2 bk]) simp
  moreover have "{i. i < ?n \<and> ?sg i \<in> set ks2}
                 = {i. i < ?n \<and> ?sg i \<in> sig_of h m False ` set ls}"
    unfolding s2 by auto
  ultimately show ?thesis by simp
qed

lemma fill_series_ok:
  "map ID out = [j..<j + length out] \<Longrightarrow> length acc = j + length out \<Longrightarrow>
   fill_series out acc = (Inr (take j acc @ map Metric out) :: 'e failure + Labels list)"
proof (induction out arbitrary: j acc)
  case Nil
  then show ?case by simp
next
  case (Cons s rest)
  have "[j..<j + length (s # rest)] = j # [Suc j..<Suc j + length rest]"
    by (subst upt_rec) simp
  with Cons.prems(1) have id: "ID s = j" and r: "map ID rest = [Suc j..<Suc j + length rest]"
    by simp_all
  have "fill_series rest (acc[j := Metric s])
        = (Inr (take (Suc j) (acc[j := Metric s]) @ map Metric rest) :: 'e failure + Labels list)"
    by (rule Cons.IH[OF r]) (use Cons.prems(2) in simp)
  moreover have "take (Suc j) (acc[j := Metric s]) = take j acc @ [Metric s]"
    using Cons.prems(2) by (simp add: take_Suc_conv_app_nth)
  ultimately show ?case
    using Cons.prems(2) id by simp
qed

section \<open>Initialisation of the binary operator\<close>

lemma initOutputs_success:
  fixes E :: "('l, 'r, 'e, 'v, 'op, 'tbl) env"
  assumes ls: "opSeries (lhsOp E) (lhs o0) = (Inr lhsS, l')"
    and rs: "opSeries (rhsOp E) (rhs o0) = (Inr rhsS, r')"
    and hs: "hs = (if Card (matching o0) = CardOneToMany then rhsS else lhsS)"
    and lw: "ls = (if Card (matching o0) = CardOneToMany then lhsS else rhsS)"
    and vo: "valid_orders (hashLabels E) (matching o0) (order1 E) (order2 E) hs ls"
    and ok: "initOutputs E o0 = (None, o')"
  shows "\<exists>out. join_inv (length hs) (\<lambda>i. lbl_of (hashLabels E) (matching o0) True (hs ! i))
                 {i. i < length hs \<and> sig_of (hashLabels E) (matching o0) False (hs ! i)
                        \<in> sig_of (hashLabels E) (matching o0) False ` set ls}
                 (out, highCardOutputIndex o', lowCardOutputIndex o')
               \<and> vectorOperator.series o' = map Metric out
               \<and> join_call E (matching o0) hs ls
                     = Inr (out, highCardOutputIndex o', lowCardOutputIndex o')"
proof -
  let ?h = "hashLabels E" and ?m = "matching o0"
  define J :: "'e failure + join_state" where
    "J = join (order1 E) (order2 E) (fst (hashSeries ?h ?m hs True)) (snd (hashSeries ?h ?m hs True))
           (fst (hashSeries ?h ?m ls False)) (snd (hashSeries ?h ?m ls False))"
  let ?o1 = "o0\<lparr>lhs := l', rhs := r'\<rparr>"
  from ok obtain out hc lc series' where J: "J = Inr (out, hc, lc)"
    and fs0: "fill_series out (replicate (length out) []) = (Inr series' :: 'e failure + Labels list)"
    and o': "highCardOutputIndex o' = hc" "lowCardOutputIndex o' = lc" "vectorOperator.series o' = series'"
    unfolding initOutputs_def J_def hs lw
    by (cases "Card (matching o0) = CardOneToMany")
       (auto simp: ls rs split_beta Let_def split: sum.splits prod.splits)
  have inv: "join_inv (length hs) (\<lambda>i. lbl_of ?h ?m True (hs ! i))
                 {i. i < length hs \<and> sig_of ?h ?m False (hs ! i) \<in> sig_of ?h ?m False ` set ls}
                 (out, hc, lc)"
    using join_series_inv[OF vo] J unfolding J_def by blast
  then have ids: "map ID out = [0..<0 + length out]"
    by (simp add: join_inv_def)
  have fs: "fill_series out (replicate (length out) []) = (Inr (map Metric out) :: 'e failure + Labels list)"
    using fill_series_ok[OF ids, of "replicate (length out) []"] by simp
  have "join_call E ?m hs ls = J"
    by (simp add: join_call_def J_def split_beta)
  then show ?thesis using inv o' fs fs0 J by auto
qed

lemma join_inner_no_error: "join_inner hin lid bs i st \<noteq> Inl (Error e)"
  by (induction hin lid bs i st rule: join_inner.induct) (auto simp: Let_def)

lemma join_outer_no_error: "join_outer hh hi li ks st \<noteq> Inl (Error e)"
proof (induction ks arbitrary: st)
  case Nil
  then show ?case by simp
next
  case (Cons k ks)
  obtain out hc lc where st: "st = (out, hc, lc)" by (cases st)
  show ?case
    unfolding st using Cons.IH
    by (auto simp: join_inner_no_error split: list.splits sum.splits)
qed

lemma join_no_error: "join ks1 ks2 hh hi lh li \<noteq> Inl (Error e)"
  by (simp add: join_def split_beta join_outer_no_error)

lemma fill_series_no_error: "fill_series out acc \<noteq> Inl (Error e)"
  by (induction out acc rule: fill_series.induct) auto

lemma initOutputs_error:
  fixes E :: "('l, 'r, 'e, 'v, 'op, 'tbl) env"
  assumes ls: "opSeries (lhsOp E) (lhs o0) = (Inr lhsS, l')"
    and rs: "opSeries (rhsOp E) (rhs o0) = (Inr rhsS, r')"
    and er: "fst (initOutputs E o0) = Some (Error e)"
  shows "\<exists>c opn n hc lc. newTable E c opn n hc lc = Inl e"
proof -
  from er have "\<exists>n hc lc. newTable E (Card (matching o0)) (operation o0) n hc lc = Inl e"
    unfolding initOutputs_def
    by (cases "Card (matching o0) = CardOneToMany")
       (auto simp: ls rs split_beta Let_def join_no_error fill_series_no_error
             split: sum.splits prod.splits)
  then show ?thesis by blast
qed

section \<open>Facts about the example instances\<close>

lemma demo_env_sel [simp]:
  "opSeries (lhsOp (demo_env hs ls ks1 ks2)) c = (Inr hs, c)"
  "opSeries (rhsOp (demo_env hs ls ks1 ks2)) c = (Inr ls, c)"
  "hashLabels (demo_env hs ls ks1 ks2) = length_hash"
  "order1 (demo_env hs ls ks1 ks2) = ks1"
  "order2 (demo_env hs ls ks1 ks2) = ks2"
  by (simp_all add: demo_env_def scripted_def)

lemma demo_operator_sel [simp]:
  "lhs (demo_operator l r m) = l"
  "rhs (demo_operator l r m) = r"
  "matching (demo_operator l r m) = m"
  by (simp_all add: demo_operator_def NewVectorOperator_def)

lemma sig_examples:
  "sig_of length_hash on_job False up_a1 = 4"
  "sig_of length_hash on_job False up_a2 = 4"
  "sig_of length_hash on_job False up_bb1 = 5"
  "sig_of length_hash on_job False info_a = 4"
  "sig_of length_hash on_job False info_bb = 5"
  "sig_of length_hash ignoring_instance False up_a1 = 4"
  "sig_of length_hash ignoring_instance False up_bb1 = 5"
  "sig_of length_hash ignoring_instance False info_a = 4"
  by (simp_all add: sig_of_def signature_key on_job_def ignoring_instance_def up_a1_def up_a2_def
        up_bb1_def info_a_def info_bb_def length_hash_def MetricName_def)

lemma card_examples [simp]:
  "Card on_job \<noteq> CardOneToMany"
  "Card ignoring_instance \<noteq> CardOneToMany"
  by (simp_all add: on_job_def ignoring_instance_def)

section \<open>The claims about the initialisation of the binary operator\<close>

text \<open>
  C8. After the initialisation of the binary operator has succeeded, the output ids that
  \<open>join\<close> assigned are \<open>0, 1, ..., n - 1\<close> in the order of emission, so that the series
  slice built by \<open>initOutputs\<close> is the list of the outputs' labels and has an entry at
  every index; every non-nil entry of \<open>highCardOutputIndex\<close> and every element of every
  list of \<open>lowCardOutputIndex\<close> is an output id below \<open>n\<close>; and \<open>highCardOutputIndex[i]\<close>
  is nil exactly when the signature of high-cardinality series \<open>i\<close> is the signature of
  no low-cardinality series. The children's \<open>Series\<close> calls return \<open>lhsS\<close> and \<open>rhsS\<close>,
  \<open>hs\<close> and \<open>ls\<close> are the high- and the low-cardinality side, and the two loops of
  \<open>join\<close> range over their maps in any order.
\<close>

theorem init_output_ids:
  fixes E :: "('l, 'r, 'e, 'v, 'op, 'tbl) env"
  assumes "opSeries (lhsOp E) (lhs o0) = (Inr lhsS, l')"
    and "opSeries (rhsOp E) (rhs o0) = (Inr rhsS, r')"
    and "hs = (if Card (matching o0) = CardOneToMany then rhsS else lhsS)"
    and "ls = (if Card (matching o0) = CardOneToMany then lhsS else rhsS)"
    and "valid_orders (hashLabels E) (matching o0) (order1 E) (order2 E) hs ls"
    and "fst (initOutputs E o0) = None"
    and "o' = snd (initOutputs E o0)"
  shows "(\<exists>out. join_call E (matching o0) hs ls
                   = Inr (out, highCardOutputIndex o', lowCardOutputIndex o')
               \<and> map ID out = [0..<length out] \<and> vectorOperator.series o' = map Metric out)
       \<and> length (highCardOutputIndex o') = length hs
       \<and> (\<forall>i<length hs. \<forall>k. highCardOutputIndex o' ! i = Some k \<longrightarrow> k < length (vectorOperator.series o'))
       \<and> (\<forall>l\<in>set (lowCardOutputIndex o'). \<forall>k\<in>set l. k < length (vectorOperator.series o'))
       \<and> (\<forall>i<length hs. highCardOutputIndex o' ! i = None \<longleftrightarrow>
             sig_of (hashLabels E) (matching o0) False (hs ! i)
               \<notin> sig_of (hashLabels E) (matching o0) False ` set ls)"
proof -
  have ok: "initOutputs E o0 = (None, o')"
    using assms(6,7) by (simp add: prod_eq_iff)
  from initOutputs_success[OF assms(1-5) ok] obtain out where
    inv: "join_inv (length hs) (\<lambda>i. lbl_of (hashLabels E) (matching o0) True (hs ! i))
                 {i. i < length hs \<and> sig_of (hashLabels E) (matching o0) False (hs ! i)
                        \<in> sig_of (hashLabels E) (matching o0) False ` set ls}
                 (out, highCardOutputIndex o', lowCardOutputIndex o')"
    and os: "vectorOperator.series o' = map Metric out"
    and jc: "join_call E (matching o0) hs ls
               = Inr (out, highCardOutputIndex o', lowCardOutputIndex o')"
    by blast
  have len: "length (vectorOperator.series o') = length out" using os by simp
  from inv have 1: "map ID out = [0..<length out]"
    and 2: "length (highCardOutputIndex o') = length hs"
    and 3: "\<forall>i<length hs. \<forall>k. highCardOutputIndex o' ! i = Some k \<longrightarrow> k < length out"
    and 4: "\<forall>l\<in>set (lowCardOutputIndex o'). \<forall>k\<in>set l. k < length out"
    and 5: "\<forall>i<length hs. highCardOutputIndex o' ! i = None \<longleftrightarrow>
             sig_of (hashLabels E) (matching o0) False (hs ! i)
               \<notin> sig_of (hashLabels E) (matching o0) False ` set ls"
    unfolding join_inv_def by auto
  show ?thesis
    using jc 1 os 2 3 4 5 unfolding len by blast
qed

theorem init_output_ids_witness:
  "valid_orders length_hash on_job [4, 5] [4] [up_a1, up_bb1] [info_a]
   \<and> fst (initOutputs (demo_env [up_a1, up_bb1] [info_a] [4, 5] [4])
            (demo_operator [] [] on_job)) = None
   \<and> length (highCardOutputIndex (snd (initOutputs (demo_env [up_a1, up_bb1] [info_a] [4, 5] [4])
         (demo_operator [] [] on_job)))) = 2
   \<and> highCardOutputIndex (snd (initOutputs (demo_env [up_a1, up_bb1] [info_a] [4, 5] [4])
         (demo_operator [] [] on_job))) ! 1 = None"
proof -
  let ?E = "demo_env [up_a1, up_bb1] [info_a] [4, 5] [4]"
  let ?o = "demo_operator [] [] on_job"
  have s1: "opSeries (lhsOp ?E) (lhs ?o) = (Inr [up_a1, up_bb1], [])"
    and s2: "opSeries (rhsOp ?E) (rhs ?o) = (Inr [info_a], [])"
    by simp_all
  have h: "[up_a1, up_bb1] = (if Card (matching ?o) = CardOneToMany then [info_a] else [up_a1, up_bb1])"
    and l: "[info_a] = (if Card (matching ?o) = CardOneToMany then [up_a1, up_bb1] else [info_a])"
    by simp_all
  have vo: "valid_orders (hashLabels ?E) (matching ?o) (order1 ?E) (order2 ?E) [up_a1, up_bb1] [info_a]"
    by (simp add: valid_orders_iff sig_examples)
  have ok: "fst (initOutputs ?E ?o) = None" by code_simp
  show ?thesis
    using init_output_ids[OF s1 s2 h l vo ok refl] vo ok
    by (simp add: sig_examples)
qed




text \<open>
  C1, as the code has it. \<open>join\<close> has no error result and \<open>initOutputs\<close> makes no error of
  its own: when the children's \<open>Series\<close> calls succeed, the only error value it returns
  is one that \<open>newTable\<close> returned. When two high-cardinality series \<open>i\<close> and \<open>j\<close> have the
  same signature as a low-cardinality series and the initialisation succeeds, the output
  series list has been built and each of the two has an output id of its own.
\<close>

theorem init_no_many_to_many_error:
  fixes E :: "('l, 'r, 'e, 'v, 'op, 'tbl) env"
  assumes "opSeries (lhsOp E) (lhs o0) = (Inr lhsS, l')"
    and "opSeries (rhsOp E) (rhs o0) = (Inr rhsS, r')"
    and "hs = (if Card (matching o0) = CardOneToMany then rhsS else lhsS)"
    and "ls = (if Card (matching o0) = CardOneToMany then lhsS else rhsS)"
    and "valid_orders (hashLabels E) (matching o0) (order1 E) (order2 E) hs ls"
    and "i < length hs" and "j < length hs" and "i \<noteq> j"
    and "sig_of (hashLabels E) (matching o0) False (hs ! i)
           = sig_of (hashLabels E) (matching o0) False (hs ! j)"
    and "sig_of (hashLabels E) (matching o0) False (hs ! i)
           \<in> sig_of (hashLabels E) (matching o0) False ` set ls"
    and "o' = snd (initOutputs E o0)"
  shows "(\<forall>e. fst (initOutputs E o0) = Some (Error e)
              \<longrightarrow> (\<exists>c opn n hc lc. newTable E c opn n hc lc = Inl e))
       \<and> (fst (initOutputs E o0) = None \<longrightarrow>
            (\<exists>a b. highCardOutputIndex o' ! i = Some a \<and> highCardOutputIndex o' ! j = Some b
                  \<and> a \<noteq> b \<and> a < length (vectorOperator.series o') \<and> b < length (vectorOperator.series o')))"
proof (intro conjI allI impI)
  fix e assume "fst (initOutputs E o0) = Some (Error e)"
  then show "\<exists>c opn n hc lc. newTable E c opn n hc lc = Inl e"
    by (rule initOutputs_error[OF assms(1,2)])
next
  assume "fst (initOutputs E o0) = None"
  then have ok: "initOutputs E o0 = (None, o')"
    using assms(11) by (simp add: prod_eq_iff)
  let ?D = "{i. i < length hs \<and> sig_of (hashLabels E) (matching o0) False (hs ! i)
                        \<in> sig_of (hashLabels E) (matching o0) False ` set ls}"
  from initOutputs_success[OF assms(1-5) ok] obtain out where
    inv: "join_inv (length hs) (\<lambda>i. lbl_of (hashLabels E) (matching o0) True (hs ! i)) ?D
                 (out, highCardOutputIndex o', lowCardOutputIndex o')"
    and os: "vectorOperator.series o' = map Metric out"
    by blast
  have "i \<in> ?D" "j \<in> ?D" using assms(6-10) by auto
  with inv assms(6,7) obtain a b where
    ab: "highCardOutputIndex o' ! i = Some a" "highCardOutputIndex o' ! j = Some b"
    unfolding join_inv_def by fastforce
  from inv ab assms(6,7) have "a < length out" "b < length out"
    unfolding join_inv_def by auto
  moreover from inv ab assms(6-8) have "a \<noteq> b"
    unfolding join_inv_def by auto
  ultimately show "\<exists>a b. highCardOutputIndex o' ! i = Some a \<and> highCardOutputIndex o' ! j = Some b
                  \<and> a \<noteq> b \<and> a < length (vectorOperator.series o') \<and> b < length (vectorOperator.series o')"
    using ab os by auto
qed

theorem init_no_many_to_many_error_witness:
  "valid_orders length_hash on_job [4] [4] [up_a1, up_a2] [info_a]
   \<and> sig_of length_hash on_job False ([up_a1, up_a2] ! 0)
       = sig_of length_hash on_job False ([up_a1, up_a2] ! 1)
   \<and> sig_of length_hash on_job False ([up_a1, up_a2] ! 0)
       \<in> sig_of length_hash on_job False ` set [info_a]
   \<and> fst (initOutputs (demo_env [up_a1, up_a2] [info_a] [4] [4]) (demo_operator [] [] on_job)) = None
   \<and> (\<exists>a b. highCardOutputIndex (snd (initOutputs (demo_env [up_a1, up_a2] [info_a] [4] [4])
                 (demo_operator [] [] on_job))) ! 0 = Some a
           \<and> highCardOutputIndex (snd (initOutputs (demo_env [up_a1, up_a2] [info_a] [4] [4])
                 (demo_operator [] [] on_job))) ! 1 = Some b
           \<and> a \<noteq> b)"
proof -
  let ?E = "demo_env [up_a1, up_a2] [info_a] [4] [4]"
  let ?o = "demo_operator [] [] on_job"
  have s1: "opSeries (lhsOp ?E) (lhs ?o) = (Inr [up_a1, up_a2], [])"
    and s2: "opSeries (rhsOp ?E) (rhs ?o) = (Inr [info_a], [])"
    by simp_all
  have h: "[up_a1, up_a2] = (if Card (matching ?o) = CardOneToMany then [info_a] else [up_a1, up_a2])"
    and l: "[info_a] = (if Card (matching ?o) = CardOneToMany then [up_a1, up_a2] else [info_a])"
    by simp_all
  have vo: "valid_orders (hashLabels ?E) (matching ?o) (order1 ?E) (order2 ?E) [up_a1, up_a2] [info_a]"
    by (simp add: valid_orders_iff sig_examples)
  have i: "0 < length [up_a1, up_a2]" and j: "1 < length [up_a1, up_a2]" and ij: "(0::nat) \<noteq> 1"
    by simp_all
  have e: "sig_of (hashLabels ?E) (matching ?o) False ([up_a1, up_a2] ! 0)
            = sig_of (hashLabels ?E) (matching ?o) False ([up_a1, up_a2] ! 1)"
    and m: "sig_of (hashLabels ?E) (matching ?o) False ([up_a1, up_a2] ! 0)
            \<in> sig_of (hashLabels ?E) (matching ?o) False ` set [info_a]"
    by (simp_all add: sig_examples)
  have ok: "fst (initOutputs ?E ?o) = None" by code_simp
  show ?thesis
    using init_no_many_to_many_error[OF s1 s2 h l vo i j ij e m refl] vo e m ok
    by auto
qed

text \<open>
  The claim C1 fails: for the one-to-one matching \<open>on(job)\<close> with two left series of
  \<open>job="a"\<close> and one right series of \<open>job="a"\<close>, \<open>join\<close> returns two output series and
  \<open>initOutputs\<close> returns no error and stores them.
\<close>

theorem many_to_many_counterexample:
  "join_call (demo_env [up_a1, up_a2] [info_a] [4] [4]) on_job [up_a1, up_a2] [info_a]
     = Inr ([\<lparr>ID = 0, Metric = [(''job'', ''a'')]\<rparr>, \<lparr>ID = 1, Metric = [(''job'', ''a'')]\<rparr>],
            [Some 0, Some 1], [[0, 1], []])
   \<and> fst (initOutputs (demo_env [up_a1, up_a2] [info_a] [4] [4]) (demo_operator [] [] on_job)) = None
   \<and> vectorOperator.series (snd (initOutputs (demo_env [up_a1, up_a2] [info_a] [4] [4])
        (demo_operator [] [] on_job))) = [[(''job'', ''a'')], [(''job'', ''a'')]]
   \<and> valid_orders length_hash on_job [4] [4] [up_a1, up_a2] [info_a]"
proof -
  have "join_call (demo_env [up_a1, up_a2] [info_a] [4] [4]) on_job [up_a1, up_a2] [info_a]
     = Inr ([\<lparr>ID = 0, Metric = [(''job'', ''a'')]\<rparr>, \<lparr>ID = 1, Metric = [(''job'', ''a'')]\<rparr>],
            [Some 0, Some 1], [[0, 1], []])"
    by code_simp
  moreover have "fst (initOutputs (demo_env [up_a1, up_a2] [info_a] [4] [4])
      (demo_operator [] [] on_job)) = None"
    by code_simp
  moreover have "vectorOperator.series (snd (initOutputs (demo_env [up_a1, up_a2] [info_a] [4] [4])
        (demo_operator [] [] on_job))) = [[(''job'', ''a'')], [(''job'', ''a'')]]"
    by code_simp
  moreover have "valid_orders length_hash on_job [4] [4] [up_a1, up_a2] [info_a]"
    by (simp add: valid_orders_iff sig_examples)
  ultimately show ?thesis by simp
qed

text \<open>
  C9 fails on the code. \<open>lowCardOutputIndex\<close> has one cell per high-cardinality series
  but is indexed by the id of a low-cardinality series: with one left series of
  \<open>job="a"\<close> and the right series \<open>job="bb"\<close> and \<open>job="a"\<close>, matched \<open>on(job)\<close>, the
  partner has id 1, the index has length 1, and \<open>join\<close> panics.
\<close>

theorem join_low_index_out_of_range:
  "join_call (demo_env [up_a1] [info_bb, info_a] [4] [4]) on_job [up_a1] [info_bb, info_a]
     = Inl PanicIndexOutOfRange
   \<and> fst (initOutputs (demo_env [up_a1] [info_bb, info_a] [4] [4]) (demo_operator [] [] on_job))
     = Some PanicIndexOutOfRange
   \<and> valid_orders length_hash on_job [4] [4] [up_a1] [info_bb, info_a]"
proof -
  have "join_call (demo_env [up_a1] [info_bb, info_a] [4] [4]) on_job [up_a1] [info_bb, info_a]
     = Inl PanicIndexOutOfRange"
    by code_simp
  moreover have "fst (initOutputs (demo_env [up_a1] [info_bb, info_a] [4] [4])
       (demo_operator [] [] on_job)) = Some PanicIndexOutOfRange"
    by code_simp
  moreover have "valid_orders length_hash on_job [4] [4] [up_a1] [info_bb, info_a]"
    by (simp add: valid_orders_iff sig_examples)
  ultimately show ?thesis by simp
qed

section \<open>The claim about the join signature\<close>

text \<open>
  C7. The claim is that the join signature of a series is, for \<open>on(Ls)\<close> with a non-empty
  \<open>Ls\<close>, the hash of its labels named in \<open>Ls\<close>, and for \<open>ignoring(Ls)\<close> the hash of its
  labels without those named in \<open>Ls\<close> or \<open>__name__\<close>. \<open>signature\<close> hands the matching
  labels to the library as the query wrote them (for \<open>ignoring\<close> with \<open>__name__\<close> appended
  at the end), while the library's walks need the names sorted. For the series
  \<open>{__name__="up", instance="1", job="a"}\<close> and the names \<open>job, instance\<close>:

  \<^item> under \<open>on(job, instance)\<close> the key is the hash of \<open>job="a"\<close> alone, whatever the hash
    function, so the series with \<open>instance="2"\<close> gets the same key and both land in one
    bucket of \<open>hashSeries\<close>;
  \<^item> under \<open>ignoring(job, instance)\<close> the key is the hash of \<open>instance="1"\<close>, a label the
    matching ignores.

  Under \<open>length_hash\<close> both keys differ from the value the claim gives.
\<close>

theorem signature_unsorted_matching_labels:
  "fst (signature h up_a1 (\<not> On on_job_instance) (MatchingLabels on_job_instance) keepLabels)
     = h [(''job'', ''a'')]
   \<and> fst (signature h up_a2 (\<not> On on_job_instance) (MatchingLabels on_job_instance) keepLabels)
     = h [(''job'', ''a'')]
   \<and> bucket (snd (hashSeries h on_job_instance [up_a1, up_a2] keepLabels)) (h [(''job'', ''a'')])
     = [0, 1]
   \<and> fst (signature h up_a1 (\<not> On ignoring_job_instance) (MatchingLabels ignoring_job_instance)
          keepLabels)
     = h [(''instance'', ''1'')]
   \<and> length_hash [(''job'', ''a'')]
     \<noteq> length_hash (filter (\<lambda>l. fst l \<in> set (MatchingLabels on_job_instance)) up_a1)
   \<and> length_hash [(''instance'', ''1'')]
     \<noteq> length_hash
         (filter (\<lambda>l. fst l \<notin> set (MatchingLabels ignoring_job_instance) \<union> {MetricName}) up_a1)"
proof -
  have k1: "sig_of h on_job_instance keepLabels up_a1 = h [(''job'', ''a'')]"
    and k2: "sig_of h on_job_instance keepLabels up_a2 = h [(''job'', ''a'')]"
    by (simp_all add: sig_of_def signature_key on_job_instance_def up_a1_def up_a2_def)
  have b: "bucket (snd (hashSeries h on_job_instance [up_a1, up_a2] keepLabels)) (h [(''job'', ''a'')])
            = [0, 1]"
    by (simp add: bucket_hashSeries ids_with_def k1 k2 upt_rec)
  have k3: "fst (signature h up_a1 (\<not> On ignoring_job_instance)
                  (MatchingLabels ignoring_job_instance) keepLabels) = h [(''instance'', ''1'')]"
    by (simp add: signature_key ignoring_job_instance_def up_a1_def MetricName_def)
  have d: "length_hash [(''job'', ''a'')]
            \<noteq> length_hash (filter (\<lambda>l. fst l \<in> set (MatchingLabels on_job_instance)) up_a1)"
    "length_hash [(''instance'', ''1'')]
       \<noteq> length_hash
           (filter (\<lambda>l. fst l \<notin> set (MatchingLabels ignoring_job_instance) \<union> {MetricName}) up_a1)"
    by (simp_all add: length_hash_def on_job_instance_def ignoring_job_instance_def up_a1_def
          MetricName_def)
  show ?thesis
    using k1 k2 b k3 d by (simp add: sig_of_def)
qed

section \<open>The claims about Next of the binary operator\<close>

lemma step_loop_ok:
  "length rest + i \<le> length rhsBatch \<Longrightarrow>
   \<exists>l2 r2. step_loop E t rhsBatch rest i (batch, l, r)
            = Inr (batch @ map (\<lambda>(x, y). execBinaryOperation E t x y) (zip rest (drop i rhsBatch)),
                   l2, r2)"
proof (induction rest arbitrary: i batch l r)
  case Nil
  then show ?case by simp
next
  case (Cons v rest)
  from Cons.prems have i: "i < length rhsBatch" and n: "length rest + Suc i \<le> length rhsBatch"
    by simp_all
  have d: "drop i rhsBatch = rhsBatch ! i # drop (Suc i) rhsBatch"
    using i by (simp add: Cons_nth_drop_Suc)
  from Cons.IH[OF n, of "batch @ [execBinaryOperation E t v (rhsBatch ! i)]"
      "opPutStepVector (lhsOp E) v l" "opPutStepVector (rhsOp E) (rhsBatch ! i) r"]
  obtain l2 r2 where
    "step_loop E t rhsBatch rest (Suc i)
       (batch @ [execBinaryOperation E t v (rhsBatch ! i)],
        opPutStepVector (lhsOp E) v l, opPutStepVector (rhsOp E) (rhsBatch ! i) r)
     = Inr ((batch @ [execBinaryOperation E t v (rhsBatch ! i)])
              @ map (\<lambda>(x, y). execBinaryOperation E t x y) (zip rest (drop (Suc i) rhsBatch)),
            l2, r2)"
    by blast
  then show ?case
    using i by (simp add: d Let_def)
qed

text \<open>
  C2, as the code has it. When both children return non-empty batches, the right one
  at least as long as the left one, and the operator is initialised (by this call or
  an earlier one), \<open>Next\<close> returns no error, whatever the timestamps of the step vectors
  are: it returns the results of \<open>execBinaryOperation\<close> on \<open>lhs[i]\<close> and \<open>rhs[i]\<close> for
  every \<open>i < len(lhs)\<close>. \<open>Next\<close> compares no timestamps.
\<close>

theorem Next_op_no_alignment_check:
  assumes "opNext (lhsOp E) (lhs o0) = (Inr lhsBatch, l')"
    and "opNext (rhsOp E) (rhs o0) = (Inr rhsBatch, r')"
    and "lhsBatch \<noteq> []" and "length lhsBatch \<le> length rhsBatch"
    and "once_initOutputs E (o0\<lparr>lhs := l', rhs := r'\<rparr>) = (None, o2)"
    and "table o2 = Some t"
  shows "fst (Next_op E o0)
           = Inr (map (\<lambda>(l, r). execBinaryOperation E t l r) (zip lhsBatch rhsBatch))"
proof -
  have ne: "rhsBatch \<noteq> []" using assms(3,4) by auto
  obtain l2 r2 where
    "step_loop E t rhsBatch lhsBatch 0 (GetVectorBatch, lhs o2, rhs o2)
       = Inr (GetVectorBatch @ map (\<lambda>(x, y). execBinaryOperation E t x y)
                (zip lhsBatch (drop 0 rhsBatch)), l2, r2)"
    using step_loop_ok[of lhsBatch 0 rhsBatch E t GetVectorBatch "lhs o2" "rhs o2"] assms(4)
    by auto
  then show ?thesis
    using assms(3) ne
    by (simp add: Next_op_def assms(1,2,5,6) Let_def GetVectorBatch_def)
qed

theorem Next_op_no_alignment_check_witness:
  "[\<lparr>T = 10, SampleIDs = [0], Samples = [1]\<rparr>] \<noteq> ([] :: int StepVector list)
   \<and> fst (once_initOutputs (demo_env [up_a1] [info_a] [4] [4])
            ((demo_operator [Inr [\<lparr>T = 10, SampleIDs = [0], Samples = [1]\<rparr>]]
                            [Inr [\<lparr>T = 20, SampleIDs = [0], Samples = [5]\<rparr>]] on_job)
               \<lparr>lhs := [], rhs := []\<rparr>)) = None
   \<and> fst (Next_op (demo_env [up_a1] [info_a] [4] [4])
            (demo_operator [Inr [\<lparr>T = 10, SampleIDs = [0], Samples = [1]\<rparr>]]
                           [Inr [\<lparr>T = 20, SampleIDs = [0], Samples = [5]\<rparr>]] on_job))
       = Inr [\<lparr>T = 10, SampleIDs = [0], Samples = [1]\<rparr>]"
proof -
  let ?E = "demo_env [up_a1] [info_a] [4] [4]"
  let ?v = "\<lparr>T = 10, SampleIDs = [0], Samples = [1::int]\<rparr>"
  let ?w = "\<lparr>T = 20, SampleIDs = [0], Samples = [5::int]\<rparr>"
  let ?o = "demo_operator [Inr [?v]] [Inr [?w]] on_job"
  let ?o2 = "snd (once_initOutputs ?E (?o\<lparr>lhs := [], rhs := []\<rparr>))"
  let ?t = "\<lparr>tCard = CardOneToOne, tOperation = (), tCache = 1, tHigh = [Some 0], tLow = [[0]]\<rparr>"
  have n1: "opNext (lhsOp ?E) (lhs ?o) = (Inr [?v], [])"
    and n2: "opNext (rhsOp ?E) (rhs ?o) = (Inr [?w], [])"
    by (simp_all add: demo_env_def scripted_def demo_operator_def NewVectorOperator_def)
  have ne: "[?v] \<noteq> []" and le: "length [?v] \<le> length [?w]" by simp_all
  have ok: "fst (once_initOutputs ?E (?o\<lparr>lhs := [], rhs := []\<rparr>)) = None" by code_simp
  then have init: "once_initOutputs ?E (?o\<lparr>lhs := [], rhs := []\<rparr>) = (None, ?o2)"
    by (simp add: prod_eq_iff)
  have tb: "table ?o2 = Some ?t" by code_simp
  have ex: "execBinaryOperation ?E ?t ?v ?w = ?v" by code_simp
  show ?thesis
    using Next_op_no_alignment_check[OF n1 n2 ne le init tb] ok ex
    by simp
qed

text \<open>
  The claim C2 fails: the step vectors of the two children carry the timestamps 0 and 7,
  and \<open>Next\<close> returns a batch and no error.
\<close>

theorem misaligned_steps_counterexample:
  "fst (Next_op (demo_env [up_a1] [info_a] [4] [4])
          (demo_operator [Inr [\<lparr>T = 0, SampleIDs = [0], Samples = [1]\<rparr>]]
                         [Inr [\<lparr>T = 7, SampleIDs = [0], Samples = [5]\<rparr>]] on_job))
     = Inr [\<lparr>T = 0, SampleIDs = [0], Samples = [1]\<rparr>]"
  by code_simp

text \<open>
  C5, as the code has it. When both children return a batch and at least one of the two
  batches is empty, \<open>Next\<close> has called \<open>Next\<close> once on each child, returns an empty batch
  and no error, and changes nothing else: the operator is not initialised by this call
  and nothing is handed back to a pool.
\<close>

theorem Next_op_empty_batch:
  assumes "opNext (lhsOp E) (lhs o0) = (Inr lhsBatch, l')"
    and "opNext (rhsOp E) (rhs o0) = (Inr rhsBatch, r')"
    and "lhsBatch = [] \<or> rhsBatch = []"
  shows "Next_op E o0 = (Inr [], o0\<lparr>lhs := l', rhs := r'\<rparr>)"
  using assms(3) by (auto simp: Next_op_def assms(1,2) Let_def)

theorem Next_op_empty_batch_witness:
  "fst (Next_op (demo_env [up_a1] [info_a] [4] [4])
          (demo_operator [Inr [\<lparr>T = 0, SampleIDs = [0], Samples = [1]\<rparr>]] [] on_job))
     = Inr []
   \<and> rhs (snd (Next_op (demo_env [up_a1] [info_a] [4] [4])
          (demo_operator [Inr [\<lparr>T = 0, SampleIDs = [0], Samples = [1]\<rparr>]] [] on_job))) = []
   \<and> lhs (snd (Next_op (demo_env [up_a1] [info_a] [4] [4])
          (demo_operator [Inr [\<lparr>T = 0, SampleIDs = [0], Samples = [1]\<rparr>]] [] on_job))) = []"
proof -
  let ?E = "demo_env [up_a1] [info_a] [4] [4]"
  let ?v = "\<lparr>T = 0, SampleIDs = [0], Samples = [1::int]\<rparr>"
  let ?o = "demo_operator [Inr [?v]] [] on_job"
  have n1: "opNext (lhsOp ?E) (lhs ?o) = (Inr [?v], [])"
    and n2: "opNext (rhsOp ?E) (rhs ?o) = (Inr [], [])"
    by (simp_all add: demo_env_def scripted_def demo_operator_def NewVectorOperator_def)
  have e: "[?v] = [] \<or> ([] :: int StepVector list) = []" by simp
  show ?thesis
    using Next_op_empty_batch[OF n1 n2 e] by simp
qed

text \<open>
  The claim C5 fails when the other child fails: the left child returns an empty batch,
  the right child returns an error, and \<open>Next\<close> returns that error.
\<close>

theorem empty_batch_error_counterexample:
  "fst (Next_op (demo_env [up_a1] [info_a] [4] [4])
          (demo_operator [Inr []] [Inl (Error ())] on_job))
     = Inl (Error ())"
  by code_simp

text \<open>
  C10 fails on the code. The step loop reads \<open>rhs[i]\<close> for every \<open>i < len(lhs)\<close> before
  the test \<open>i < len(rhs)\<close> that guards the return of \<open>rhs[i]\<close> to the pool: with a left
  batch of two step vectors and a right batch of one, \<open>Next\<close> panics at \<open>i = 1\<close>.
\<close>

theorem step_loop_reads_out_of_range:
  "fst (Next_op (demo_env [up_a1] [info_a] [4] [4])
          (demo_operator
             [Inr [\<lparr>T = 0, SampleIDs = [0], Samples = [1]\<rparr>, \<lparr>T = 10, SampleIDs = [0], Samples = [2]\<rparr>]]
             [Inr [\<lparr>T = 0, SampleIDs = [0], Samples = [5]\<rparr>]] on_job))
     = Inl PanicIndexOutOfRange"
  by code_simp

section \<open>End of stream\<close>

lemma nls_loop_stop:
  assumes "\<not> (currStep < numSteps \<and> ts \<le> maxt s)"
  shows "nls_loop s numSteps currStep ts vectors = Inr vectors"
proof -
  have "(currStep < numSteps \<and> ts \<le> maxt s) = False" using assms by simp
  then show ?thesis by (subst nls_loop.simps) (simp only: if_False)
qed

lemma nls_loop_length:
  "nls_loop s n c ts vs = (Inr vs' :: 'e failure + 'v StepVector list) \<Longrightarrow> length vs \<le> length vs'"
proof (induction "nat (n - c)" arbitrary: c ts vs)
  case 0
  then have "\<not> (c < n \<and> ts \<le> maxt s)" by simp
  then show ?case using "0.prems" by (simp add: nls_loop_stop)
next
  case (Suc k)
  show ?case
  proof (cases "c < n \<and> ts \<le> maxt s")
    case False
    then show ?thesis using Suc.prems by (simp add: nls_loop_stop)
  next
    case True
    have k: "k = nat (n - (c + 1))" using Suc.hyps(2) by simp
    let ?vs1 = "if int (length vs) \<le> c then vs @ [GetStepVector ts] else vs"
    from Suc.prems True obtain vs2 where
      r: "nls_loop s n (c + 1) (wrap64 (ts + step s)) vs2 = (Inr vs' :: 'e failure + 'v StepVector list)"
      and l: "length vs2 = length ?vs1"
      by (subst (asm) nls_loop.simps)
         (auto simp: Let_def split: option.splits list.splits if_splits sum.splits)
    have "length vs2 \<le> length vs'" by (rule Suc.hyps(1)[OF k r])
    then show ?thesis using l by (auto split: if_splits)
  qed
qed

lemma nls_loop_nonempty:
  assumes "nls_loop s n 0 ts [] = (Inr vs' :: 'e failure + 'v StepVector list)"
    and "0 < n" and "ts \<le> maxt s"
  shows "vs' \<noteq> []"
proof -
  from assms obtain vs2 where
    r: "nls_loop s n (0 + 1) (wrap64 (ts + step s)) vs2 = (Inr vs' :: 'e failure + 'v StepVector list)"
    and l: "length vs2 = 1"
    by (subst (asm) nls_loop.simps)
       (auto simp: Let_def split: option.splits list.splits if_splits sum.splits)
  from nls_loop_length[OF r] l show ?thesis by auto
qed

lemma loadSeries_sel [simp]:
  "mint (loadSeries s) = mint s" "maxt (loadSeries s) = maxt s" "step (loadSeries s) = step s"
  "currentStep (loadSeries s) = currentStep s" "stepsBatch (loadSeries s) = stepsBatch s"
  "val (loadSeries s) = val s" "call (loadSeries s) = call s"
  by (simp_all add: loadSeries_def)

lemma nls_numSteps_loadSeries [simp]: "nls_numSteps (loadSeries s) = nls_numSteps s"
  by (simp add: nls_numSteps_def)

lemma nls_Next_unfold:
  "nls_Next s0 =
     (if currentStep s0 > maxt s0 then (Inr [], s0)
      else case nls_loop (loadSeries s0) (nls_numSteps s0) 0 (currentStep s0) [] of
             Inl e \<Rightarrow> (Inl e, loadSeries s0)
           | Inr vectors' \<Rightarrow>
               (Inr vectors',
                (loadSeries s0)\<lparr>currentStep :=
                   wrap64 (currentStep s0 + wrap64 (step s0 * nls_numSteps s0))\<rparr>))"
  by (simp add: nls_Next_def Let_def nls_numSteps_def GetVectorBatch_def split: sum.splits)

lemma nls_Next_empty_ended:
  assumes "fst (nls_Next s) = (Inr [] :: 'e failure + 'v StepVector list)"
  shows "nls_ended s"
proof (rule ccontr)
  assume "\<not> nls_ended s"
  then have c: "currentStep s \<le> maxt s" and n: "0 < nls_numSteps s"
    by (simp_all add: nls_ended_def)
  from assms c have "nls_loop (loadSeries s) (nls_numSteps s) 0 (currentStep s) []
                     = (Inr [] :: 'e failure + 'v StepVector list)"
    by (simp add: nls_Next_unfold split: sum.splits)
  from nls_loop_nonempty[OF this n] c show False by simp
qed

lemma nls_ended_Next:
  assumes "nls_ended s"
  shows "fst (nls_Next s) = (Inr [] :: 'e failure + 'v StepVector list)"
    and "nls_ended (snd (nls_Next s :: ('e failure + 'v StepVector list) \<times> 'v numberLiteralSelector))"
proof -
  show "fst (nls_Next s) = (Inr [] :: 'e failure + 'v StepVector list)"
    using assms by (auto simp: nls_Next_unfold nls_ended_def nls_loop_stop)
  show "nls_ended (snd (nls_Next s :: ('e failure + 'v StepVector list) \<times> 'v numberLiteralSelector))"
    using assms
    by (auto simp: nls_Next_unfold nls_ended_def nls_loop_stop nls_numSteps_def)
qed

lemma nls_ended_after: "nls_ended s \<Longrightarrow> nls_ended (nls_after n s)"
  by (induction n) (simp_all add: nls_ended_Next(2))

lemma nls_end_of_stream:
  assumes "fst (nls_Next s) = (Inr [] :: 'e failure + 'v StepVector list)"
  shows "fst (nls_Next (nls_after n (snd (nls_Next s :: ('e failure + 'v StepVector list) \<times> 'v numberLiteralSelector))))
           = (Inr [] :: 'e failure + 'v StepVector list)"
proof -
  have "nls_ended s" using assms by (rule nls_Next_empty_ended)
  then have "nls_ended (snd (nls_Next s :: ('e failure + 'v StepVector list) \<times> 'v numberLiteralSelector))"
    by (rule nls_ended_Next(2))
  then have "nls_ended (nls_after n (snd (nls_Next s :: ('e failure + 'v StepVector list) \<times> 'v numberLiteralSelector)))"
    by (rule nls_ended_after)
  then show ?thesis by (rule nls_ended_Next(1))
qed

lemma step_loop_length:
  "step_loop E t rhsBatch rest i (batch, l, r) = Inr (batch', l2, r2)
   \<Longrightarrow> length batch' = length batch + length rest"
proof (induction rest arbitrary: i batch l r)
  case Nil
  then show ?case by simp
next
  case (Cons v rest)
  from Cons.prems have
    "step_loop E t rhsBatch rest (i + 1)
       (batch @ [execBinaryOperation E t v (rhsBatch ! i)],
        opPutStepVector (lhsOp E) v l,
        (if i < length rhsBatch then opPutStepVector (rhsOp E) (rhsBatch ! i) r else r))
     = Inr (batch', l2, r2)"
    by (simp add: Let_def split: if_splits)
  from Cons.IH[OF this] show ?case by simp
qed

lemma Next_op_empty_result:
  assumes "opNext (lhsOp E) (lhs o0) = (Inr lb, l')"
    and "opNext (rhsOp E) (rhs o0) = (Inr rb, r')"
    and "lb = [] \<or> rb = []"
  shows "Next_op E o0 = (Inr [], o0\<lparr>lhs := l', rhs := r'\<rparr>)"
  using assms(3) by (auto simp: Next_op_def assms(1,2) Let_def)

lemma Next_op_nonempty_result:
  assumes l: "opNext (lhsOp E) (lhs o0) = (Inr lb, l')"
    and r: "opNext (rhsOp E) (rhs o0) = (Inr rb, r')"
    and ne: "lb \<noteq> []" "rb \<noteq> []"
  shows "fst (Next_op E o0) \<noteq> Inr []"
proof -
  let ?o1 = "o0\<lparr>lhs := l', rhs := r'\<rparr>"
  obtain er o2 where i: "once_initOutputs E ?o1 = (er, o2)"
    by (cases "once_initOutputs E ?o1")
  have unf: "Next_op E o0 =
      (case er of
         Some e \<Rightarrow> (Inl e, o2)
       | None \<Rightarrow>
          (case table o2 of
             None \<Rightarrow> (Inl PanicNilDereference, o2)
           | Some t \<Rightarrow>
              (case step_loop E t rb lb 0 (GetVectorBatch, lhs o2, rhs o2) of
                 Inl e \<Rightarrow> (Inl e, o2)
               | Inr (batch, l2, r2) \<Rightarrow>
                   (Inr batch,
                    o2\<lparr>lhs := opPutVectors (lhsOp E) lb l2,
                       rhs := opPutVectors (rhsOp E) rb r2\<rparr>))))"
    using ne by (simp add: Next_op_def l r Let_def i)
  show ?thesis
  proof (cases er)
    case (Some e)
    then show ?thesis by (simp add: unf)
  next
    case None
    show ?thesis
    proof (cases "table o2")
      case tn: None
      then show ?thesis by (simp add: unf None)
    next
      case (Some t)
      show ?thesis
      proof (cases "step_loop E t rb lb 0 (GetVectorBatch, lhs o2, rhs o2)")
        case (Inl e)
        then show ?thesis by (simp add: unf None Some)
      next
        case (Inr res)
        obtain batch l2 r2 where res: "res = (batch, l2, r2)" by (cases res)
        from step_loop_length[OF Inr[unfolded res]] ne have "batch \<noteq> []"
          by (auto simp: GetVectorBatch_def)
        then show ?thesis by (simp add: unf None Some Inr res)
      qed
    qed
  qed
qed

lemma Next_op_empty_cases:
  assumes "fst (Next_op E o0) = Inr []"
  shows "\<exists>lb rb l' r'. opNext (lhsOp E) (lhs o0) = (Inr lb, l')
           \<and> opNext (rhsOp E) (rhs o0) = (Inr rb, r') \<and> (lb = [] \<or> rb = [])"
proof -
  obtain x l' where l: "opNext (lhsOp E) (lhs o0) = (x, l')" by (cases "opNext (lhsOp E) (lhs o0)")
  obtain y r' where r: "opNext (rhsOp E) (rhs o0) = (y, r')" by (cases "opNext (rhsOp E) (rhs o0)")
  from assms obtain lb where x: "x = Inr lb"
    by (cases x) (simp_all add: Next_op_def l)
  from assms obtain rb where y: "y = Inr rb"
    by (cases y) (simp_all add: Next_op_def l r x)
  have "lb = [] \<or> rb = []"
    using Next_op_nonempty_result[OF l[unfolded x] r[unfolded y]] assms by blast
  then show ?thesis by (simp add: l r x y)
qed

lemma Next_op_empty_next:
  assumes stl: "\<forall>c. fst (opNext (lhsOp E) c) = Inr []
                 \<longrightarrow> fst (opNext (lhsOp E) (snd (opNext (lhsOp E) c))) = Inr []"
    and str: "\<forall>c. fst (opNext (rhsOp E) c) = Inr []
                 \<longrightarrow> fst (opNext (rhsOp E) (snd (opNext (rhsOp E) c))) = Inr []"
    and e: "fst (Next_op E o0) = Inr []"
  shows "fst (opNext (lhsOp E) (lhs (snd (Next_op E o0)))) = Inr []
       \<or> fst (opNext (rhsOp E) (rhs (snd (Next_op E o0)))) = Inr []"
proof -
  from Next_op_empty_cases[OF e] obtain lb rb l' r' where
    l: "opNext (lhsOp E) (lhs o0) = (Inr lb, l')" and r: "opNext (rhsOp E) (rhs o0) = (Inr rb, r')"
    and em: "lb = [] \<or> rb = []"
    by blast
  have n: "Next_op E o0 = (Inr [], o0\<lparr>lhs := l', rhs := r'\<rparr>)"
    by (rule Next_op_empty_result[OF l r em])
  from em show ?thesis
  proof
    assume "lb = []"
    then have "fst (opNext (lhsOp E) (lhs o0)) = Inr []" using l by simp
    then have "fst (opNext (lhsOp E) (snd (opNext (lhsOp E) (lhs o0)))) = Inr []"
      using stl by blast
    then show ?thesis by (simp add: n l)
  next
    assume "rb = []"
    then have "fst (opNext (rhsOp E) (rhs o0)) = Inr []" using r by simp
    then have "fst (opNext (rhsOp E) (snd (opNext (rhsOp E) (rhs o0)))) = Inr []"
      using str by blast
    then show ?thesis by (simp add: n r)
  qed
qed

lemma Next_op_ended:
  assumes "fst (opNext (lhsOp E) (lhs o0)) = Inr [] \<or> fst (opNext (rhsOp E) (rhs o0)) = Inr []"
    and "\<exists>b. fst (opNext (lhsOp E) (lhs o0)) = Inr b"
    and "\<exists>b. fst (opNext (rhsOp E) (rhs o0)) = Inr b"
  shows "fst (Next_op E o0) = Inr []"
proof -
  obtain x l' where l: "opNext (lhsOp E) (lhs o0) = (x, l')" by (cases "opNext (lhsOp E) (lhs o0)")
  obtain y r' where r: "opNext (rhsOp E) (rhs o0) = (y, r')" by (cases "opNext (rhsOp E) (rhs o0)")
  from assms(2,3) obtain lb rb where x: "x = Inr lb" and y: "y = Inr rb"
    by (auto simp: l r)
  from assms(1) have "lb = [] \<or> rb = []" by (auto simp: l r x y)
  from Next_op_empty_result[OF l[unfolded x] r[unfolded y] this] show ?thesis by simp
qed

lemma Next_op_end_of_stream:
  assumes stl: "\<forall>c. fst (opNext (lhsOp E) c) = Inr []
                 \<longrightarrow> fst (opNext (lhsOp E) (snd (opNext (lhsOp E) c))) = Inr []"
    and str: "\<forall>c. fst (opNext (rhsOp E) c) = Inr []
                 \<longrightarrow> fst (opNext (rhsOp E) (snd (opNext (rhsOp E) c))) = Inr []"
    and ok: "\<forall>k\<le>n. (\<exists>b. fst (opNext (lhsOp E) (lhs (Next_after E k (snd (Next_op E o0))))) = Inr b)
                 \<and> (\<exists>b. fst (opNext (rhsOp E) (rhs (Next_after E k (snd (Next_op E o0))))) = Inr b)"
    and e: "fst (Next_op E o0) = Inr []"
  shows "fst (Next_op E (Next_after E n (snd (Next_op E o0)))) = Inr []"
proof -
  let ?o = "\<lambda>k. Next_after E k (snd (Next_op E o0))"
  have inv: "k \<le> n \<Longrightarrow> fst (opNext (lhsOp E) (lhs (?o k))) = Inr []
                        \<or> fst (opNext (rhsOp E) (rhs (?o k))) = Inr []" for k
  proof (induction k)
    case 0
    show ?case using Next_op_empty_next[OF stl str e] by simp
  next
    case (Suc k)
    then have k: "k \<le> n" by simp
    have "fst (Next_op E (?o k)) = Inr []"
      using Next_op_ended[OF Suc.IH[OF k]] ok k by blast
    from Next_op_empty_next[OF stl str this] show ?case by simp
  qed
  show ?thesis
    using Next_op_ended[OF inv[of n]] ok by blast
qed

text \<open>
  C6, as the code has it. Once a \<open>Next\<close> call of the number-literal selector has
  returned an empty result, every later \<open>Next\<close> call returns an empty result and no
  error. Once a \<open>Next\<close> call of the binary operator has returned an empty result, its
  next \<open>n + 1\<close> calls return an empty result and no error provided that in these calls
  neither child fails and that a child's empty batch is final (a child that returns an
  empty batch returns an empty batch on its next call too).
\<close>

theorem end_of_stream_is_final:
  fixes s :: "'v numberLiteralSelector" and E :: "('l, 'r, 'e, 'v, 'op, 'tbl) env"
  shows "(fst (nls_Next s) = (Inr [] :: 'e failure + 'v StepVector list) \<longrightarrow>
          fst (nls_Next (nls_after n
                 (snd (nls_Next s :: ('e failure + 'v StepVector list) \<times> 'v numberLiteralSelector))))
            = (Inr [] :: 'e failure + 'v StepVector list))
       \<and> ((\<forall>c. fst (opNext (lhsOp E) c) = Inr []
                 \<longrightarrow> fst (opNext (lhsOp E) (snd (opNext (lhsOp E) c))) = Inr [])
          \<and> (\<forall>c. fst (opNext (rhsOp E) c) = Inr []
                 \<longrightarrow> fst (opNext (rhsOp E) (snd (opNext (rhsOp E) c))) = Inr [])
          \<and> (\<forall>k\<le>n. (\<exists>b. fst (opNext (lhsOp E) (lhs (Next_after E k (snd (Next_op E o0))))) = Inr b)
                 \<and> (\<exists>b. fst (opNext (rhsOp E) (rhs (Next_after E k (snd (Next_op E o0))))) = Inr b))
          \<and> fst (Next_op E o0) = Inr []
          \<longrightarrow> fst (Next_op E (Next_after E n (snd (Next_op E o0)))) = Inr [])"
  using nls_end_of_stream[of s n] Next_op_end_of_stream[of E n o0] by blast

lemma nls_operator_final:
  "\<forall>c. fst (opNext nls_operator c) = (Inr [] :: 'e failure + 'v StepVector list)
       \<longrightarrow> fst (opNext nls_operator (snd (opNext (nls_operator :: ('v numberLiteralSelector, 'e, 'v) VectorOperator) c)))
           = (Inr [] :: 'e failure + 'v StepVector list)"
proof (intro allI impI)
  fix c :: "'v numberLiteralSelector"
  assume "fst (opNext nls_operator c) = (Inr [] :: 'e failure + 'v StepVector list)"
  then have "fst (nls_Next c) = (Inr [] :: 'e failure + 'v StepVector list)"
    by (simp add: nls_operator_def)
  then have "nls_ended c" by (rule nls_Next_empty_ended)
  then have "nls_ended (snd (nls_Next c :: ('e failure + 'v StepVector list) \<times> 'v numberLiteralSelector))"
    by (rule nls_ended_Next(2))
  then have "fst (nls_Next (snd (nls_Next c :: ('e failure + 'v StepVector list) \<times> 'v numberLiteralSelector)))
              = (Inr [] :: 'e failure + 'v StepVector list)"
    by (rule nls_ended_Next(1))
  then show "fst (opNext nls_operator (snd (opNext (nls_operator :: ('v numberLiteralSelector, 'e, 'v) VectorOperator) c)))
           = (Inr [] :: 'e failure + 'v StepVector list)"
    by (simp add: nls_operator_def)
qed

theorem end_of_stream_is_final_witness:
  "fst (nls_Next (NewNumberLiteralSelector 0 (- 10) 10 10 (2::int) None))
     = (Inr [] :: unit failure + int StepVector list)
   \<and> fst (nls_Next (nls_after 3 (snd (nls_Next (NewNumberLiteralSelector 0 (- 10) 10 10 (2::int) None)
        :: (unit failure + int StepVector list) \<times> int numberLiteralSelector))))
     = (Inr [] :: unit failure + int StepVector list)
   \<and> fst (Next_op literal_env
        (NewVectorOperator (NewNumberLiteralSelector 0 20 10 10 1 None)
           (NewNumberLiteralSelector 0 (- 10) 10 10 2 None) on_job ())) = Inr []
   \<and> fst (Next_op literal_env (Next_after literal_env 1 (snd (Next_op literal_env
        (NewVectorOperator (NewNumberLiteralSelector 0 20 10 10 1 None)
           (NewNumberLiteralSelector 0 (- 10) 10 10 2 None) on_job ()))))) = Inr []"
proof -
  let ?s = "NewNumberLiteralSelector 0 (- 10) 10 10 (2::int) None"
  let ?o = "NewVectorOperator (NewNumberLiteralSelector 0 20 10 10 1 None) ?s on_job ()
              :: (int numberLiteralSelector, int numberLiteralSelector, unit, unit recorded_table) vectorOperator"
  let ?o1 = "snd (Next_op literal_env ?o)"
  have e1: "fst (nls_Next ?s) = (Inr [] :: unit failure + int StepVector list)" by code_simp
  have e2: "fst (Next_op literal_env ?o) = Inr []" by code_simp
  have stl: "\<forall>c. fst (opNext (lhsOp literal_env) c) = Inr []
                 \<longrightarrow> fst (opNext (lhsOp literal_env) (snd (opNext (lhsOp literal_env) c))) = Inr []"
    and str: "\<forall>c. fst (opNext (rhsOp literal_env) c) = Inr []
                 \<longrightarrow> fst (opNext (rhsOp literal_env) (snd (opNext (rhsOp literal_env) c))) = Inr []"
    using nls_operator_final by (simp_all add: literal_env_def)
  have l0: "fst (opNext (lhsOp literal_env) (lhs (Next_after literal_env 0 ?o1))) = Inr []"
    and r0: "fst (opNext (rhsOp literal_env) (rhs (Next_after literal_env 0 ?o1))) = Inr []"
    and l1: "fst (opNext (lhsOp literal_env) (lhs (Next_after literal_env 1 ?o1))) = Inr []"
    and r1: "fst (opNext (rhsOp literal_env) (rhs (Next_after literal_env 1 ?o1))) = Inr []"
    by code_simp+
  have ok: "\<forall>k\<le>1. (\<exists>b. fst (opNext (lhsOp literal_env) (lhs (Next_after literal_env k ?o1))) = Inr b)
                 \<and> (\<exists>b. fst (opNext (rhsOp literal_env) (rhs (Next_after literal_env k ?o1))) = Inr b)"
  proof (intro allI impI)
    fix k :: nat assume "k \<le> 1"
    then have "k = 0 \<or> k = 1" by auto
    then show "(\<exists>b. fst (opNext (lhsOp literal_env) (lhs (Next_after literal_env k ?o1))) = Inr b)
                 \<and> (\<exists>b. fst (opNext (rhsOp literal_env) (rhs (Next_after literal_env k ?o1))) = Inr b)"
      using l0 r0 l1 r1 by auto
  qed
  have a: "fst (nls_Next (nls_after 3 (snd (nls_Next ?s
             :: (unit failure + int StepVector list) \<times> int numberLiteralSelector))))
           = (Inr [] :: unit failure + int StepVector list)"
    using end_of_stream_is_final[of ?s 3 literal_env ?o] e1 by blast
  have b: "fst (Next_op literal_env (Next_after literal_env 1 ?o1)) = Inr []"
    using end_of_stream_is_final[of ?s 1 literal_env ?o] stl str ok e2 by blast
  show ?thesis using e1 e2 a b by simp
qed

text \<open>
  The claim C6 fails for the binary operator: the right child is at its end and the left
  child returns a batch and then an error; the first \<open>Next\<close> returns an empty result,
  the second one the error.
\<close>

theorem end_of_stream_then_error_counterexample:
  "fst (Next_op (demo_env [up_a1] [info_a] [4] [4])
          (demo_operator [Inr [\<lparr>T = 0, SampleIDs = [0], Samples = [1]\<rparr>], Inl (Error ())] [] on_job))
     = Inr []
   \<and> fst (Next_op (demo_env [up_a1] [info_a] [4] [4])
          (snd (Next_op (demo_env [up_a1] [info_a] [4] [4])
             (demo_operator [Inr [\<lparr>T = 0, SampleIDs = [0], Samples = [1]\<rparr>], Inl (Error ())] [] on_job))))
     = Inl (Error ())"
  by code_simp

text \<open>
  C4 fails on the code for an instant query. With \<open>step = 0\<close> the selector sets
  \<open>totalSteps\<close> to 1 but adds \<open>step * numSteps = 0\<close> to \<open>currentStep\<close>, which therefore
  never passes \<open>maxt\<close>: every \<open>Next\<close> call, the first and each later one, returns a step
  vector at \<open>mint\<close>.
\<close>

theorem instant_query_never_ends:
  "fst (nls_Next (nls_after n (NewNumberLiteralSelector 1000 1000 0 10 (42::int) None)))
     = (Inr [\<lparr>T = 1000, SampleIDs = [0], Samples = [42]\<rparr>] :: unit failure + int StepVector list)"
proof -
  let ?s0 = "NewNumberLiteralSelector 1000 1000 0 10 (42::int) None"
  let ?s1 = "?s0\<lparr>series := [[]], once := True\<rparr>"
  let ?r = "Inr [\<lparr>T = 1000, SampleIDs = [0], Samples = [42]\<rparr>] :: unit failure + int StepVector list"
  have n: "nls_numSteps ?s0 = 1" "nls_numSteps ?s1 = 1"
    by (simp_all add: nls_numSteps_def NewNumberLiteralSelector_def float64_def int_of_float64_def wrap64_def)
  have loop: "nls_loop s 1 0 1000 [] = ?r" if "maxt s = 1000" "call s = None" "val s = 42" "step s = 0" for s :: "int numberLiteralSelector"
    apply (subst nls_loop.simps)
    apply (simp add: that GetStepVector_def Let_def wrap64_def)
    apply (subst nls_loop.simps)
    apply simp
    done
  have a: "nls_Next ?s0 = (?r, ?s1)"
    by (simp add: nls_Next_unfold n)
       (simp add: NewNumberLiteralSelector_def loadSeries_def loop wrap64_def)
  have b: "nls_Next ?s1 = (?r, ?s1)"
    by (simp add: nls_Next_unfold n)
       (simp add: NewNumberLiteralSelector_def loadSeries_def loop wrap64_def)
  have "nls_after n ?s0 = ?s0 \<or> nls_after n ?s0 = ?s1"
    by (induction n) (auto simp: a b)
  then show ?thesis using a b by auto
qed

section \<open>The number-literal selector on a range query\<close>

lemma wrap64_id: "- (2 ^ 63) \<le> x \<Longrightarrow> x < 2 ^ 63 \<Longrightarrow> wrap64 x = x"
  by (simp add: wrap64_def)

lemma quot_nonneg: "0 \<le> a \<Longrightarrow> 0 < b \<Longrightarrow> quot a b = a div b"
  by (cases "a = 0") (simp_all add: quot_def)

lemma steps_le_iff:
  fixes a st x :: int
  assumes "0 < st"
  shows "(a * st \<le> x) = (a \<le> x div st)"
proof
  assume "a * st \<le> x"
  then have "(a * st) div st \<le> x div st" using assms by (intro zdiv_mono1)
  then show "a \<le> x div st" using assms by simp
next
  assume "a \<le> x div st"
  then have "a * st \<le> (x div st) * st" using assms by (intro mult_right_mono) simp_all
  also have "\<dots> \<le> x"
    using assms by (metis add.commute div_mult_mod_eq le_add_same_cancel2 pos_mod_sign)
  finally show "a * st \<le> x" .
qed

lemma remaining_step:
  fixes ts st mx :: int
  assumes "0 < st" "ts \<le> mx"
  shows "(mx - ts) div st + 1 = (if ts + st \<le> mx then (mx - (ts + st)) div st + 1 else 0) + 1"
proof (cases "ts + st \<le> mx")
  case True
  have "(mx - ts) div st = ((mx - (ts + st)) + st) div st" by (simp add: algebra_simps)
  also have "\<dots> = (mx - (ts + st)) div st + 1" using assms(1) by (subst div_add_self2) simp_all
  finally show ?thesis using True by simp
next
  case False
  then have "(mx - ts) div st = 0" using assms by (intro div_pos_pos_trivial) simp_all
  then show ?thesis using False by simp
qed

lemma count_step:
  fixes c n r :: int
  shows "c < n \<Longrightarrow> 0 \<le> r \<Longrightarrow> nat (min (n - c) (r + 1)) = Suc (nat (min (n - (c + 1)) r))"
proof (cases "n - c \<le> r + 1")
  case True
  assume "c < n" "0 \<le> r"
  then have "min (n - c) (r + 1) = n - c" "min (n - (c + 1)) r = n - c - 1"
    using True by simp_all
  then show ?thesis using \<open>c < n\<close> by simp
next
  case False
  assume "c < n" "0 \<le> r"
  then have "min (n - c) (r + 1) = r + 1" "min (n - (c + 1)) r = r"
    using False by simp_all
  then show ?thesis using \<open>0 \<le> r\<close> by simp
qed

lemma nls_loop_emits:
  assumes st: "0 < step s" "step s \<le> 2 ^ 61" and mx: "maxt s \<le> 2 ^ 61"
    and ser: "series s = [[]]"
  shows "0 \<le> c \<Longrightarrow> length vs = nat c \<Longrightarrow> - (2 ^ 62) \<le> ts \<Longrightarrow>
         nls_loop s n c ts vs
           = (Inr (vs @ map (\<lambda>j. literal_step s (ts + int j * step s))
                      [0..<nat (min (n - c) (if ts \<le> maxt s
                                            then (maxt s - ts) div step s + 1 else 0))])
              :: 'e failure + 'v StepVector list)"
proof (induction "nat (n - c)" arbitrary: c ts vs)
  case 0
  then have "\<not> (c < n \<and> ts \<le> maxt s)" by simp
  moreover from 0 have "nat (min (n - c) (if ts \<le> maxt s then (maxt s - ts) div step s + 1 else 0)) = 0"
    by simp
  ultimately show ?case by (simp add: nls_loop_stop)
next
  case (Suc k)
  let ?m = "\<lambda>t. if t \<le> maxt s then (maxt s - t) div step s + 1 else 0"
  show ?case
  proof (cases "ts \<le> maxt s")
    case False
    then have "\<not> (c < n \<and> ts \<le> maxt s)" by simp
    then show ?thesis using False by (simp add: nls_loop_stop)
  next
    case True
    have cn: "c < n" using Suc.hyps(2) by simp
    have k: "k = nat (n - (c + 1))" using Suc.hyps(2) by simp
    have w: "wrap64 (ts + step s) = ts + step s"
      using True st mx Suc.prems(3) by (intro wrap64_id) simp_all
    let ?v = "literal_step s ts"
    have upd: "(vs @ [y])[nat c := x] = vs @ [x]" for x y :: "'v StepVector"
      unfolding Suc.prems(2)[symmetric] by simp
    have nth: "(vs @ [y]) ! nat c = y" for y :: "'v StepVector"
      unfolding Suc.prems(2)[symmetric] by simp
    have unf: "nls_loop s n c ts vs
               = (nls_loop s n (c + 1) (ts + step s) (vs @ [?v]) :: 'e failure + 'v StepVector list)"
      apply (subst nls_loop.simps)
      using cn True Suc.prems(1,2)
      apply (simp add: Let_def w ser upd nth literal_step_def GetStepVector_def split: option.splits)
      done
    have ih: "nls_loop s n (c + 1) (ts + step s) (vs @ [?v])
              = (Inr ((vs @ [?v]) @ map (\<lambda>j. literal_step s (ts + step s + int j * step s))
                      [0..<nat (min (n - (c + 1)) (?m (ts + step s)))])
                 :: 'e failure + 'v StepVector list)"
      by (rule Suc.hyps(1)[OF k]) (use Suc.prems st in simp_all)
    have m: "?m ts = ?m (ts + step s) + 1"
      using remaining_step[OF st(1) True] True by simp
    have mnn: "0 \<le> ?m (ts + step s)"
      using st(1) by (simp add: pos_imp_zdiv_nonneg_iff)
    have cnt: "nat (min (n - c) (?m ts)) = Suc (nat (min (n - (c + 1)) (?m (ts + step s))))"
      unfolding m by (rule count_step[OF cn mnn])
    have "map (\<lambda>j. literal_step s (ts + int j * step s)) [0..<nat (min (n - c) (?m ts))]
          = ?v # map (\<lambda>j. literal_step s (ts + step s + int j * step s))
                   [0..<nat (min (n - (c + 1)) (?m (ts + step s)))]"
      unfolding cnt map_upt_Suc by (simp add: algebra_simps)
    then show ?thesis
      unfolding unf ih by simp
  qed
qed

lemma float64_small: "\<bar>x\<bar> \<le> 2 ^ 53 \<Longrightarrow> float64 x = x"
  by (simp add: float64_def)

lemma literal_step_cong:
  "call s = call s' \<Longrightarrow> val s = val s' \<Longrightarrow> literal_step s = literal_step s'"
  by (auto simp: literal_step_def fun_eq_iff Let_def split: option.splits)

lemma map_upt_shift:
  "map (\<lambda>j. f (a + j)) [0..<k] = map f [a..<a + k]"
proof -
  have "[a..<a + k] = map (\<lambda>j. a + j) [0..<k]"
    by (induction k) simp_all
  then show ?thesis by (simp add: comp_def)
qed

lemma nls_Next_range:
  assumes q: "in_range_query mn mx st sb v c a s"
    and st: "0 < st" "st \<le> 2 ^ 51" and sb: "1 \<le> sb" "sb \<le> 2 ^ 53"
    and mn: "- (2 ^ 51) \<le> mn" "mn \<le> mx" "mx \<le> 2 ^ 51"
    and a: "a < (mx - mn) div st + 1"
  shows "\<exists>s'. nls_Next s
           = (Inr (map (\<lambda>k. literal_step s (mn + int k * st))
                     [nat a..<nat (min (a + min sb ((mx - mn) div st + 1)) ((mx - mn) div st + 1))])
                :: 'e failure + 'v StepVector list, s')
         \<and> in_range_query mn mx st sb v c (a + min sb ((mx - mn) div st + 1)) s'"
proof -
  let ?total = "(mx - mn) div st + 1"
  let ?ns = "min sb ?total"
  let ?cs = "mn + a * st"
  from q have f: "mint s = mn" "maxt s = mx" "step s = st" "stepsBatch s = sb" "val s = v"
    "call s = c" "currentStep s = ?cs" "0 \<le> a"
    and ser0: "once s \<Longrightarrow> series s = [[]]"
    by (simp_all add: in_range_query_def split: if_splits)
  have d0: "0 \<le> (mx - mn) div st" using st mn by (simp add: pos_imp_zdiv_nonneg_iff)
  have dle: "(mx - mn) div st \<le> mx - mn"
  proof -
    have "(mx - mn) div st \<le> (mx - mn) div 1"
      using st mn by (intro zdiv_mono2) simp_all
    then show ?thesis by simp
  qed
  have tb: "1 \<le> ?total" "?total \<le> 2 ^ 52 + 1" using d0 dle mn by simp_all
  have ale: "a * st \<le> mx - mn"
    using a steps_le_iff[OF st(1), of a "mx - mn"] by simp
  have cs: "?cs \<le> mx" "mn \<le> ?cs" using ale f(8) st(1) by simp_all
  have ns: "nls_numSteps s = ?ns"
  proof -
    have w1: "wrap64 (mx - mn) = mx - mn" using mn by (intro wrap64_id) simp_all
    have w2: "wrap64 ((mx - mn) div st) = (mx - mn) div st"
      using d0 dle mn by (intro wrap64_id) simp_all
    have w3: "wrap64 (?total) = ?total" using tb by (intro wrap64_id) simp_all
    have f1: "float64 ?total = ?total" using tb by (intro float64_small) simp
    have f2: "float64 sb = sb" using sb by (intro float64_small) simp
    have w4: "wrap64 ?ns = ?ns" using sb tb by (intro wrap64_id) (simp_all add: min_def)
    show ?thesis
      using st(1) mn
      by (simp add: nls_numSteps_def f w1 quot_nonneg w2 w3 f1 f2 int_of_float64_def w4)
  qed
  let ?s1 = "loadSeries s"
  have ser: "series ?s1 = [[]]" using ser0 by (simp add: loadSeries_def)
  have rem: "(mx - ?cs) div st + 1 = ?total - a"
  proof -
    have "(mx - ?cs) div st = ((mx - mn) + (- a) * st) div st" by (simp add: algebra_simps)
    also have "\<dots> = - a + (mx - mn) div st" using st(1) by (subst div_mult_self1) simp_all
    finally show ?thesis by simp
  qed
  have loop: "nls_loop ?s1 ?ns 0 ?cs []
        = (Inr ([] @ map (\<lambda>j. literal_step ?s1 (?cs + int j * step ?s1))
                   [0..<nat (min (?ns - 0) (if ?cs \<le> maxt ?s1
                                            then (maxt ?s1 - ?cs) div step ?s1 + 1 else 0))])
           :: 'e failure + 'v StepVector list)"
  proof (rule nls_loop_emits)
    show "0 < step ?s1" "step ?s1 \<le> 2 ^ 61" using st by (simp_all add: f)
    show "maxt ?s1 \<le> 2 ^ 61" using mn by (simp add: f)
    show "series ?s1 = [[]]" by (rule ser)
    show "(0::int) \<le> 0" "length ([] :: 'v StepVector list) = nat 0" by simp_all
    have "0 \<le> a * st" using f(8) st(1) by simp
    then show "- (2 ^ 62) \<le> ?cs" using mn by simp
  qed
  have ls: "literal_step ?s1 = literal_step s"
    by (rule literal_step_cong) simp_all
  have cnt: "nat (min ?ns (?total - a)) = nat (min (a + ?ns) ?total) - nat a"
    using f(8) by (simp add: min_def) linarith
  have lst: "map (\<lambda>j. literal_step s (?cs + int j * st)) [0..<nat (min ?ns (?total - a))]
             = map (\<lambda>k. literal_step s (mn + int k * st)) [nat a..<nat (min (a + ?ns) ?total)]"
  proof -
    have "map (\<lambda>j. literal_step s (?cs + int j * st)) [0..<nat (min ?ns (?total - a))]
          = map (\<lambda>j. literal_step s (mn + int (nat a + j) * st)) [0..<nat (min ?ns (?total - a))]"
      using f(8) by (intro map_cong) (simp_all add: algebra_simps)
    also have "\<dots> = map (\<lambda>k. literal_step s (mn + int k * st))
                        [nat a..<nat a + nat (min ?ns (?total - a))]"
      by (rule map_upt_shift)
    also have "nat a + nat (min ?ns (?total - a)) = nat (min (a + ?ns) ?total)"
      using f(8) a sb tb by (simp add: min_def) linarith
    finally show ?thesis .
  qed
  have res: "nls_loop ?s1 ?ns 0 ?cs []
        = (Inr (map (\<lambda>k. literal_step s (mn + int k * st)) [nat a..<nat (min (a + ?ns) ?total)])
           :: 'e failure + 'v StepVector list)"
    using loop cs by (simp add: f ls rem lst)
  have nsb: "0 \<le> ?ns" "?ns \<le> ?total" using sb tb by simp_all
  have "st * ?ns \<le> st * ?total" using st(1) nsb by (intro mult_left_mono) simp_all
  also have "st * ?total = ((mx - mn) div st) * st + st" by (simp add: algebra_simps)
  also have "\<dots> \<le> (mx - mn) + st"
    using steps_le_iff[OF st(1), of "(mx - mn) div st" "mx - mn"] by simp
  finally have prod: "st * ?ns \<le> (mx - mn) + st" .
  have prod0: "0 \<le> st * ?ns" using st(1) nsb by simp
  have w5: "wrap64 (st * ?ns) = st * ?ns"
    using prod prod0 mn st by (intro wrap64_id) simp_all
  have w6: "wrap64 (?cs + st * ?ns) = ?cs + st * ?ns"
    using prod prod0 mn st cs by (intro wrap64_id) simp_all
  let ?s' = "?s1\<lparr>currentStep := mn + (a + ?ns) * st\<rparr>"
  have nx: "nls_Next s
           = (Inr (map (\<lambda>k. literal_step s (mn + int k * st)) [nat a..<nat (min (a + ?ns) ?total)])
                :: 'e failure + 'v StepVector list, ?s')"
  proof -
    have "\<not> maxt s < currentStep s" using cs by (simp add: f)
    then have "(nls_Next s :: ('e failure + 'v StepVector list) \<times> 'v numberLiteralSelector)
        = (case nls_loop ?s1 ?ns 0 ?cs [] of
             Inl e \<Rightarrow> (Inl e, ?s1)
           | Inr vectors' \<Rightarrow>
               (Inr vectors', ?s1\<lparr>currentStep := wrap64 (?cs + wrap64 (st * ?ns))\<rparr>))"
      by (simp only: nls_Next_unfold ns f if_False)
    also have "\<dots> = (Inr (map (\<lambda>k. literal_step s (mn + int k * st))
                             [nat a..<nat (min (a + ?ns) ?total)]),
                      ?s1\<lparr>currentStep := wrap64 (?cs + wrap64 (st * ?ns))\<rparr>)"
      by (simp only: res sum.case)
    also have "wrap64 (?cs + wrap64 (st * ?ns)) = mn + (a + ?ns) * st"
      by (simp only: w5 w6) (simp add: algebra_simps)
    finally show ?thesis .
  qed
  have "in_range_query mn mx st sb v c (a + ?ns) ?s'"
    using f nsb ser0 by (simp add: in_range_query_def loadSeries_def)
  then show ?thesis using nx by blast
qed

lemma nls_Next_past_end:
  assumes q: "in_range_query mn mx st sb v c a s" and st: "0 < st"
    and a: "(mx - mn) div st + 1 \<le> a"
  shows "nls_Next s = (Inr [] :: 'e failure + 'v StepVector list, s)"
proof -
  from q have f: "maxt s = mx" "currentStep s = mn + a * st"
    by (simp_all add: in_range_query_def)
  have "\<not> a \<le> (mx - mn) div st" using a by simp
  then have "\<not> a * st \<le> mx - mn" using steps_le_iff[OF st, of a "mx - mn"] by simp
  then have "maxt s < currentStep s" by (simp add: f)
  then show ?thesis by (simp add: nls_Next_def)
qed

lemma nls_emitted_range:
  assumes st: "0 < st" "st \<le> 2 ^ 51" and sb: "1 \<le> sb" "sb \<le> 2 ^ 53"
    and mn: "- (2 ^ 51) \<le> mn" "mn \<le> mx" "mx \<le> 2 ^ 51"
  shows "in_range_query mn mx st sb v c a (s :: 'v numberLiteralSelector) \<Longrightarrow>
         nls_emitted n s
           = map (\<lambda>k. literal_step s (mn + int k * st))
               [nat a..<nat (min (a + int n * min sb ((mx - mn) div st + 1)) ((mx - mn) div st + 1))]"
proof (induction n arbitrary: a s)
  case 0
  then show ?case by simp
next
  case (Suc n)
  let ?total = "(mx - mn) div st + 1"
  let ?ns = "min sb ?total"
  let ?f = "\<lambda>s k. literal_step s (mn + int k * st)"
  have a0: "0 \<le> a" using Suc.prems by (simp add: in_range_query_def)
  have d0: "0 \<le> (mx - mn) div st" using st mn by (simp add: pos_imp_zdiv_nonneg_iff)
  then have ns1: "1 \<le> ?ns" using sb by simp
  have nsl: "?ns \<le> ?total" by simp
  show ?case
  proof (cases "a < ?total")
    case False
    then have pe: "nls_Next s = (Inr [] :: unit failure + 'v StepVector list, s)"
      using nls_Next_past_end[OF Suc.prems st(1)] by simp
    have "nat (min (a + int n * ?ns) ?total) \<le> nat a"
      and "nat (min (a + int (Suc n) * ?ns) ?total) \<le> nat a"
      using False by simp_all
    then show ?thesis
      using Suc.IH[OF Suc.prems] by (simp add: pe)
  next
    case True
    from nls_Next_range[OF Suc.prems st sb mn True] obtain s' where
      nx: "nls_Next s = (Inr (map (?f s) [nat a..<nat (min (a + ?ns) ?total)])
                           :: unit failure + 'v StepVector list, s')"
      and q': "in_range_query mn mx st sb v c (a + ?ns) s'"
      by blast
    have ls: "literal_step s' = literal_step s"
      using Suc.prems q' by (intro literal_step_cong) (simp_all add: in_range_query_def)
    have ih: "nls_emitted n s'
              = map (?f s) [nat (a + ?ns)..<nat (min (a + ?ns + int n * ?ns) ?total)]"
      using Suc.IH[OF q'] by (simp add: ls)
    have e: "a + ?ns + int n * ?ns = a + int (Suc n) * ?ns" by (simp add: algebra_simps)
    have mult0: "0 \<le> int n * ?ns" using ns1 by simp
    have app: "[nat a..<nat (min (a + ?ns) ?total)]
                 @ [nat (a + ?ns)..<nat (min (a + int (Suc n) * ?ns) ?total)]
               = [nat a..<nat (min (a + int (Suc n) * ?ns) ?total)]"
    proof (cases "a + ?ns \<le> ?total")
      case le: True
      have m1: "min (a + ?ns) ?total = a + ?ns" using le by simp
      have "a + ?ns \<le> min (a + int (Suc n) * ?ns) ?total"
        using le mult0 unfolding e[symmetric] by simp
      then have "nat (a + ?ns) \<le> nat (min (a + int (Suc n) * ?ns) ?total)" by (rule nat_mono)
      moreover have "a \<le> a + ?ns" using ns1 by linarith
      then have "nat a \<le> nat (a + ?ns)" by (rule nat_mono)
      ultimately show ?thesis
        unfolding m1 by (metis le_Suc_ex upt_add_eq_append)
    next
      case gt: False
      have m1: "min (a + ?ns) ?total = ?total" using gt by simp
      have m2: "min (a + int (Suc n) * ?ns) ?total = ?total"
        using gt mult0 unfolding e[symmetric] by simp
      have "[nat (a + ?ns)..<nat ?total] = []" using gt by simp
      then show ?thesis unfolding m1 m2 by simp
    qed
    have "nls_emitted (Suc n) s
          = map (?f s) [nat a..<nat (min (a + ?ns) ?total)]
            @ map (?f s) [nat (a + ?ns)..<nat (min (a + ?ns + int n * ?ns) ?total)]"
      by (simp add: nx ih)
    also have "\<dots> = map (?f s) ([nat a..<nat (min (a + ?ns) ?total)]
                 @ [nat (a + ?ns)..<nat (min (a + int (Suc n) * ?ns) ?total)])"
      unfolding e by simp
    finally show ?thesis unfolding app .
  qed
qed

text \<open>
  For a range query the selector emits, over its \<open>Next\<close> calls, one step vector for each
  timestamp \<open>mint + k * step\<close> with \<open>0 \<le> k \<le> (maxt - mint) div step\<close>, in this order
  and each once; each holds the one sample of series 0, and after that \<open>Next\<close> returns
  nothing. The step is positive, a batch has at least one step, and the timestamps
  lie within \<open>2 ^ 51\<close> milliseconds of the epoch, so that no \<open>int64\<close> operation wraps
  around and the conversions to \<open>float64\<close> are exact.
\<close>

theorem range_query_emits_all_steps:
  assumes "0 < st" "st \<le> 2 ^ 51" and "1 \<le> sb" "sb \<le> 2 ^ 53"
    and "- (2 ^ 51) \<le> mn" "mn \<le> mx" "mx \<le> 2 ^ 51"
    and "nat ((mx - mn) div st + 1) \<le> n"
  shows "nls_emitted n (NewNumberLiteralSelector mn mx st sb v c)
           = map (\<lambda>k. literal_step (NewNumberLiteralSelector mn mx st sb v c) (mn + int k * st))
               [0..<nat ((mx - mn) div st + 1)]"
proof -
  let ?total = "(mx - mn) div st + 1"
  let ?s0 = "NewNumberLiteralSelector mn mx st sb v c"
  have q: "in_range_query mn mx st sb v c 0 ?s0"
    by (simp add: in_range_query_def NewNumberLiteralSelector_def)
  have d0: "0 \<le> (mx - mn) div st" using assms by (simp add: pos_imp_zdiv_nonneg_iff)
  then have ns1: "1 \<le> min sb ?total" using assms(3) by simp
  have "?total \<le> int n" using assms(8) by simp
  also have "int n = int n * 1" by simp
  also have "\<dots> \<le> int n * min sb ?total" using ns1 by (intro mult_left_mono) simp_all
  finally have "min (0 + int n * min sb ?total) ?total = ?total" by simp
  then show ?thesis
    using nls_emitted_range[OF assms(1-7) q, of n] by simp
qed

theorem range_query_emits_all_steps_example:
  "map T (nls_emitted 5 (NewNumberLiteralSelector 0 50 10 4 (42::int) None)) = [0, 10, 20, 30, 40, 50]"
  by code_simp

end
